theory Spec2Isabelle
  imports Complex_Main "HOL-Library.Multiset"
begin

section \<open>The ranking metrics of \<open>evaluate_model\<close> (official/recommendation/ncf_main.py)\<close>

text \<open>
  \<open>evaluate_model\<close> collects the predicted scores of the evaluation set, reshapes them
  into one row per user, ranks the columns of every row and computes the Hit Ratio and
  the NDCG of column 0, the held-out item. Scores are modelled as real numbers, so
  rounding, infinities and NaN of the floating-point arrays are outside the model.
\<close>

subsection \<open>Data\<close>

text \<open>Each constructor is a \<open>ValueError\<close> raised by NumPy.\<close>

datatype error =
    ConcatenateEmpty      \<comment> \<open>\<open>np.concatenate\<close> of an empty list of arrays\<close>
  | ReshapeUnknownDims    \<comment> \<open>\<open>reshape(n, -1)\<close> with negative \<open>n\<close>: two unknown dimensions\<close>
  | ReshapeSizeMismatch   \<comment> \<open>\<open>reshape(n, -1)\<close> with \<open>n = 0\<close> or a size that \<open>n\<close> does not divide\<close>

text \<open>
  What the function reads of its arguments: the batches that \<open>estimator.predict\<close>
  yields (the rating column of each), the estimator's global step, and the number of
  users of the dataset.
\<close>

record estimator =
  predictions :: "real list list"
  global_step :: int

record ncf_dataset =
  num_users :: int

record eval_results =
  HR :: real
  NDCG :: real
  GLOBAL_STEP :: int

definition TOP_K :: nat where
  "TOP_K = 10"

subsection \<open>The NumPy operations\<close>

definition concatenate :: "real list list \<Rightarrow> error + real list" where
  "concatenate batches =
     (if batches = [] then Inl ConcatenateEmpty else Inr (concat batches))"

text \<open>
  \<open>a.reshape(n, -1)\<close> on a flat array: a negative \<open>n\<close> is a second unknown dimension;
  otherwise the known dimensions must be non-zero and divide the size, and the row
  width is the quotient. Row \<open>u\<close> holds the entries \<open>u * w\<close> to \<open>u * w + w - 1\<close>.
\<close>

definition split_rows :: "nat \<Rightarrow> nat \<Rightarrow> real list \<Rightarrow> real list list" where
  "split_rows n w a = map (\<lambda>u. take w (drop (u * w) a)) [0..<n]"

definition reshape :: "real list \<Rightarrow> int \<Rightarrow> error + real list list" where
  "reshape a n =
     (if n < 0 then Inl ReshapeUnknownDims
      else if n = 0 \<or> int (length a) mod n \<noteq> 0 then Inl ReshapeSizeMismatch
      else Inr (split_rows (nat n) (length a div nat n) a))"

text \<open>
  \<open>np.argsort(scores, axis=1)\<close> is called with its default kind, which NumPy documents
  as not stable: the order it gives to equal scores is not fixed by the source. The
  sorting routine is therefore a parameter \<open>srt\<close> of the model, applied to every row.
  \<open>is_argsort row p\<close> is what every kind of \<open>argsort\<close> guarantees of its result \<open>p\<close>:
  the column indices of the row, each once, with ascending scores.
\<close>

definition is_argsort :: "real list \<Rightarrow> nat list \<Rightarrow> bool" where
  "is_argsort row p \<longleftrightarrow>
     mset p = mset [0..<length row] \<and> sorted (map (\<lambda>i. row ! i) p)"

definition argsort_spec :: "(real list \<Rightarrow> nat list) \<Rightarrow> bool" where
  "argsort_spec srt \<longleftrightarrow> (\<forall>row. is_argsort row (srt row))"

text \<open>
  Two rows have the same order when their entries compare alike. A sorting routine
  that only compares scores returns the same indices for two such rows.
\<close>

definition same_order :: "real list \<Rightarrow> real list \<Rightarrow> bool" where
  "same_order xs ys \<longleftrightarrow>
     length xs = length ys \<and>
     (\<forall>i<length xs. \<forall>j<length xs. (xs ! i < xs ! j) = (ys ! i < ys ! j))"

definition comparison_based :: "(real list \<Rightarrow> nat list) \<Rightarrow> bool" where
  "comparison_based srt \<longleftrightarrow> (\<forall>xs ys. same_order xs ys \<longrightarrow> srt xs = srt ys)"

text \<open>
  The insertion sort, which keeps equal scores in ascending index order; NumPy's
  default kind sorts short rows this way.
\<close>

definition argsort_insertion :: "real list \<Rightarrow> nat list" where
  "argsort_insertion row = sort_key (\<lambda>i. row ! i) [0..<length row]"

subsection \<open>An unstable kind: quicksort\<close>

text \<open>
  NumPy's default kind is an introsort (\<open>aquicksort\<close> in npysort/quicksort.c.src of the
  1.x releases): a piece of more than 17 entries is partitioned around the median of
  its first, middle and last entry, and the pieces of at most 17 entries are sorted by
  insertion. The routine below follows it on the list of column indices.
  \<open>scan_up\<close> and \<open>scan_down\<close> are the two inner loops of the partition; \<open>hi\<close> is the
  position where the pivot is parked, which the upward scan never passes. The switch
  to heapsort after \<open>2 * log2 n\<close> nested partitions is left out.
\<close>

definition SMALL_QUICKSORT :: nat where
  "SMALL_QUICKSORT = 16"

definition swap :: "nat list \<Rightarrow> nat \<Rightarrow> nat \<Rightarrow> nat list" where
  "swap t i j = t[i := t ! j, j := t ! i]"

definition swap_if_less :: "real list \<Rightarrow> nat list \<Rightarrow> nat \<Rightarrow> nat \<Rightarrow> nat list" where
  "swap_if_less v t a b = (if v ! (t ! a) < v ! (t ! b) then swap t a b else t)"

function scan_up :: "real list \<Rightarrow> real \<Rightarrow> nat list \<Rightarrow> nat \<Rightarrow> nat \<Rightarrow> nat" where
  "scan_up v vp t hi i =
     (if Suc i < hi \<and> v ! (t ! Suc i) < vp then scan_up v vp t hi (Suc i) else Suc i)"
  by pat_completeness auto
termination
  by (relation "measure (\<lambda>(v, vp, t, hi, i). hi - i)") auto

declare scan_up.simps [simp del]

fun scan_down :: "real list \<Rightarrow> real \<Rightarrow> nat list \<Rightarrow> nat \<Rightarrow> nat" where
  "scan_down v vp t 0 = 0"
| "scan_down v vp t (Suc j) = (if vp < v ! (t ! j) then scan_down v vp t j else j)"

function partition_loop ::
  "real list \<Rightarrow> real \<Rightarrow> nat list \<Rightarrow> nat \<Rightarrow> nat \<Rightarrow> nat \<Rightarrow> nat list \<times> nat" where
  "partition_loop v vp t hi i j =
     (let i' = scan_up v vp t hi i; j' = scan_down v vp t j
      in if j' \<le> i' then (t, i') else partition_loop v vp (swap t i' j') hi i' j')"
  by pat_completeness auto
termination
proof (relation "measure (\<lambda>(v, vp, t, hi, i, j). j - i)", goal_cases)
  case 1
  show ?case by simp
next
  case (2 v vp t hi i j i' j')
  have "i < scan_up v vp t hi i"
  proof (induction v vp t hi i rule: scan_up.induct)
    case (1 v vp t hi i)
    show ?case
    proof (cases "Suc i < hi \<and> v ! (t ! Suc i) < vp")
      case True
      with 1 have "Suc i < scan_up v vp t hi (Suc i)" by simp
      with True show ?thesis by (subst scan_up.simps) simp
    next
      case False
      then show ?thesis by (subst scan_up.simps) auto
    qed
  qed
  moreover have "scan_down v vp t j \<le> j"
    by (induction j) auto
  ultimately show ?case using 2 by simp
qed

declare partition_loop.simps [simp del]

definition partition_step :: "real list \<Rightarrow> nat list \<Rightarrow> nat list \<times> nat" where
  "partition_step v t =
     (let pr = length t - 1;
          pm = pr div 2;
          t1 = swap_if_less v t pm 0;
          t2 = swap_if_less v t1 pr pm;
          t3 = swap_if_less v t2 pm 0;
          vp = v ! (t3 ! pm);
          t4 = swap t3 pm (pr - 1);
          (t5, i) = partition_loop v vp t4 (pr - 1) 0 (pr - 1)
      in (swap t5 i (pr - 1), i))"

function aquicksort :: "real list \<Rightarrow> nat list \<Rightarrow> nat list" where
  "aquicksort v t =
     (if length t - 1 \<le> SMALL_QUICKSORT then sort_key (\<lambda>i. v ! i) t
      else case partition_step v t of
             (t', i) \<Rightarrow> aquicksort v (take i t') @ t' ! i # aquicksort v (drop (Suc i) t'))"
  by pat_completeness auto
termination
proof -
  have up: "scan_up v vp t hi i \<le> max (Suc i) hi" for v vp t hi i
  proof (induction v vp t hi i rule: scan_up.induct)
    case (1 v vp t hi i)
    show ?case
    proof (cases "Suc i < hi \<and> v ! (t ! Suc i) < vp")
      case True
      with 1 have "scan_up v vp t hi (Suc i) \<le> max (Suc (Suc i)) hi" by simp
      with True show ?thesis by (subst scan_up.simps) simp
    next
      case False
      then show ?thesis by (subst scan_up.simps) auto
    qed
  qed
  have down: "scan_down v vp t j \<le> j" for v vp t j
    by (induction j) auto
  have loop: "length (fst (partition_loop v vp t hi i j)) = length t \<and>
      (Suc i \<le> hi \<longrightarrow> j \<le> hi \<longrightarrow> snd (partition_loop v vp t hi i j) \<le> hi)"
    for v vp t hi i j
  proof (induction v vp t hi i j rule: partition_loop.induct)
    case (1 v vp t hi i j)
    let ?i = "scan_up v vp t hi i" and ?j = "scan_down v vp t j"
    show ?case
    proof (cases "?j \<le> ?i")
      case True
      then show ?thesis
        using up[of v vp t hi i] by (subst (1 2) partition_loop.simps) (auto simp: Let_def)
    next
      case False
      have "j \<le> hi \<Longrightarrow> Suc ?i \<le> hi \<and> ?j \<le> hi"
        using False down[of v vp t j] by simp
      with False "1.IH"[OF refl refl False] show ?thesis
        by (subst (1 2) partition_loop.simps) (simp add: Let_def swap_def)
    qed
  qed
  have step: "length (fst (partition_step v t)) = length t \<and>
      (3 \<le> length t \<longrightarrow> snd (partition_step v t) \<le> length t - 2)" for v t
  proof -
    have "length t - 1 - 1 = length t - 2" by simp
    moreover have "3 \<le> length t \<Longrightarrow> Suc 0 \<le> length t - 2" by simp
    ultimately show ?thesis
      unfolding partition_step_def Let_def split_beta fst_conv snd_conv
      using loop by (simp add: swap_def swap_if_less_def)
  qed
  have smaller: "length (take i t') < length t \<and> length (drop (Suc i) t') < length t"
    if "\<not> length t - 1 \<le> SMALL_QUICKSORT" and "partition_step v t = (t', i)" for v t t' i
  proof -
    from that(1) have "3 \<le> length t" by (simp add: SMALL_QUICKSORT_def)
    moreover from that(2) step[of v t] have "length t' = length t"
      and "3 \<le> length t \<longrightarrow> i \<le> length t - 2" by simp_all
    ultimately show ?thesis by auto
  qed
  show ?thesis
  proof (relation "measure (\<lambda>(v, t). length t)", goal_cases)
    case 1
    show ?case by simp
  next
    case 2
    then show ?case using smaller by (metis case_prod_conv in_measure)
  next
    case 3
    then show ?case using smaller by (metis case_prod_conv in_measure)
  qed
qed

declare aquicksort.simps [simp del]

definition argsort_quick :: "real list \<Rightarrow> nat list" where
  "argsort_quick row = aquicksort row [0..<length row]"

subsection \<open>The evaluation\<close>

text \<open>
  \<open>np.argsort(...)[:, -_TOP_K:]\<close> keeps the last \<open>_TOP_K\<close> entries of every sorted row
  (all of them when the row is shorter), and \<open>np.flip(..., axis=1)\<close> reverses each.
\<close>

definition top_indicies :: "(real list \<Rightarrow> nat list) \<Rightarrow> real list list \<Rightarrow> nat list list" where
  "top_indicies srt scores =
     map (\<lambda>row. rev (drop (length (srt row) - TOP_K) (srt row))) scores"

text \<open>
  \<open>np.argwhere(np.equal(top_indicies, 0))\<close>: the (row, position) pairs of the entries
  equal to 0, in row-major order.
\<close>

definition hit_indicies :: "nat list list \<Rightarrow> (nat \<times> nat) list" where
  "hit_indicies tops =
     concat (map (\<lambda>u. map (\<lambda>r. (u, r)) (filter (\<lambda>r. tops ! u ! r = 0) [0..<length (tops ! u)]))
               [0..<length tops])"

definition evaluate_model ::
  "(real list \<Rightarrow> nat list) \<Rightarrow> estimator \<Rightarrow> ncf_dataset \<Rightarrow> error + eval_results" where
  "evaluate_model srt est ds =
     (case concatenate (predictions est) of
        Inl e \<Rightarrow> Inl e
      | Inr flat \<Rightarrow>
          (case reshape flat (num_users ds) of
             Inl e \<Rightarrow> Inl e
           | Inr predicted_scores_by_user \<Rightarrow>
               let tops = top_indicies srt predicted_scores_by_user;
                   hit = hit_indicies tops;
                   hr = real (length hit) / real_of_int (num_users ds);
                   ndcg = (\<Sum>r\<leftarrow>map snd hit. ln 2 / ln (real r + 2))
                            / real_of_int (num_users ds)
               in Inr \<lparr>HR = hr, NDCG = ndcg, GLOBAL_STEP = global_step est\<rparr>))"

text \<open>
  The call returns a result exactly on well-shaped input: at least one batch, a positive
  number of users, and a number of scores that the number of users divides. The
  reshaped matrix then has \<open>num_users\<close> rows of \<open>row_width\<close> columns.
\<close>

definition well_shaped :: "estimator \<Rightarrow> ncf_dataset \<Rightarrow> bool" where
  "well_shaped est ds \<longleftrightarrow>
     predictions est \<noteq> [] \<and> 0 < num_users ds \<and>
     int (length (concat (predictions est))) mod num_users ds = 0"

definition row_width :: "estimator \<Rightarrow> ncf_dataset \<Rightarrow> nat" where
  "row_width est ds = length (concat (predictions est)) div nat (num_users ds)"

definition scores_by_user :: "estimator \<Rightarrow> ncf_dataset \<Rightarrow> real list list" where
  "scores_by_user est ds =
     split_rows (nat (num_users ds)) (row_width est ds) (concat (predictions est))"

text \<open>The positions of column index 0 within one row of \<open>top_indicies\<close>.\<close>

definition row_hits :: "nat list \<Rightarrow> nat list" where
  "row_hits ranking = filter (\<lambda>r. ranking ! r = 0) [0..<length ranking]"

text \<open>
  Conditions on one row of scores: no other column ties with column 0; column 0 has
  the strictly highest score. \<open>better_count\<close> is the number of columns that score
  above column 0.
\<close>

definition true_item_untied :: "real list \<Rightarrow> bool" where
  "true_item_untied row \<longleftrightarrow> row \<noteq> [] \<and> (\<forall>s\<in>set (tl row). s \<noteq> hd row)"

definition true_item_highest :: "real list \<Rightarrow> bool" where
  "true_item_highest row \<longleftrightarrow> row \<noteq> [] \<and> (\<forall>s\<in>set (tl row). s < hd row)"

definition better_count :: "real list \<Rightarrow> nat" where
  "better_count row = length (filter (\<lambda>s. hd row < s) (tl row))"

text \<open>Row \<open>u\<close> of the matrix multiplied by the constant \<open>cs ! u\<close>.\<close>

definition scale_rows :: "real list \<Rightarrow> real list list \<Rightarrow> real list list" where
  "scale_rows cs scores = map2 (\<lambda>c row. map (\<lambda>s. c * s) row) cs scores"

text \<open>
  \<open>row'\<close> is \<open>row\<close> with its non-true columns (1 to \<open>W - 1\<close>) reordered, each score
  moving with its column.
\<close>

definition negatives_permuted :: "real list \<Rightarrow> real list \<Rightarrow> bool" where
  "negatives_permuted row row' \<longleftrightarrow>
     row \<noteq> [] \<and> row' \<noteq> [] \<and> hd row' = hd row \<and> mset (tl row') = mset (tl row)"

subsection \<open>The metrics as the specification words them\<close>

text \<open>The 0-based position of the first occurrence of \<open>x\<close> in a ranking.\<close>

fun rank_of :: "nat \<Rightarrow> nat list \<Rightarrow> nat option" where
  "rank_of x [] = None"
| "rank_of x (y # ys) = (if x = y then Some 0 else map_option Suc (rank_of x ys))"

text \<open>A row is a hit when column index 0 is in its top-K ranking.\<close>

definition row_hit :: "nat list \<Rightarrow> bool" where
  "row_hit ranking \<longleftrightarrow> 0 \<in> set ranking"

text \<open>A hit at rank \<open>r\<close> adds \<open>log 2 / log (r + 2)\<close>; a row with no hit adds 0.\<close>

definition row_gain :: "nat list \<Rightarrow> real" where
  "row_gain ranking =
     (case rank_of 0 ranking of None \<Rightarrow> 0 | Some r \<Rightarrow> ln 2 / ln (real r + 2))"

definition spec_hit_ratio :: "nat list list \<Rightarrow> int \<Rightarrow> real" where
  "spec_hit_ratio rankings n = real (length (filter row_hit rankings)) / real_of_int n"

definition spec_ndcg :: "nat list list \<Rightarrow> int \<Rightarrow> real" where
  "spec_ndcg rankings n = (\<Sum>ranking\<leftarrow>rankings. row_gain ranking) / real_of_int n"

text \<open>
  The ranking of one row as the specification words it: the \<open>k\<close> column indices with
  the largest scores, by descending score, equal scores by ascending column index.
\<close>

definition spec_ranking :: "nat \<Rightarrow> real list \<Rightarrow> nat list" where
  "spec_ranking k row = take k (sort_key (\<lambda>i. - row ! i) [0..<length row])"

subsection \<open>Example inputs\<close>

text \<open>
  Two users with eleven columns each, delivered in two batches: the first user's true
  item has the highest score of its row, the second user's the lowest.
\<close>

definition est_two_users :: estimator where
  "est_two_users =
     \<lparr>predictions = [[11, 1, 2, 3, 4, 5, 6, 7], [8, 9, 10, 0, 1, 2, 3, 4, 5, 6, 7, 8, 9, 10]],
      global_step = 7\<rparr>"

definition ds_two_users :: ncf_dataset where
  "ds_two_users = \<lparr>num_users = 2\<rparr>"

text \<open>Three scores for two users.\<close>

definition est_odd :: estimator where
  "est_odd = \<lparr>predictions = [[3, 1], [2]], global_step = 0\<rparr>"

text \<open>
  Two users with three columns each: the rows \<open>[0.9, 0.1, 0.05]\<close> and
  \<open>[0.1, 0.9, 0.05]\<close>.
\<close>

definition est_narrow :: estimator where
  "est_narrow = \<lparr>predictions = [[9/10, 1/10, 1/20, 1/10, 9/10, 1/20]], global_step = 0\<rparr>"

definition ds_no_users :: ncf_dataset where
  "ds_no_users = \<lparr>num_users = 0\<rparr>"

text \<open>Two users with eleven columns each, the true item on top of both rows.\<close>

definition est_true_on_top :: estimator where
  "est_true_on_top =
     \<lparr>predictions = [[11, 1, 2, 3, 4, 5, 6, 7, 8, 9, 10], [5, 4, 4, 3, 3, 2, 2, 1, 1, 0, 0]],
      global_step = 3\<rparr>"

text \<open>The three-column example with its first row tripled and its second row halved.\<close>

definition est_scaled :: estimator where
  "est_scaled =
     \<lparr>predictions = [[27/10, 3/10, 3/20, 1/20, 9/20, 1/40]], global_step = 0\<rparr>"

text \<open>One user with eleven columns: columns 0 and 1 tie at the top, the others below.\<close>

definition est_tied :: estimator where
  "est_tied = \<lparr>predictions = [[1, 1, 0, 0, 0, 0, 0, 0, 0, 0, 0]], global_step = 0\<rparr>"

definition ds_one_user :: ncf_dataset where
  "ds_one_user = \<lparr>num_users = 1\<rparr>"

text \<open>The two-user example with the negatives of both rows reordered.\<close>

definition est_two_users_permuted :: estimator where
  "est_two_users_permuted =
     \<lparr>predictions = [[11, 10, 9, 8, 7, 6, 5, 4, 3, 2, 1, 0, 2, 1, 4, 3, 6, 5, 8, 7, 10, 9]],
      global_step = 7\<rparr>"

text \<open>
  Two rows of eighteen columns with the same scores: the true item ties with sixteen
  negatives and one negative scores lower, in the last column of the first row and in
  column 1 of the second.
\<close>

definition row_ties_a :: "real list" where
  "row_ties_a = [1, 1, 1, 1, 1, 1, 1, 1, 1, 1, 1, 1, 1, 1, 1, 1, 1, 0]"

definition row_ties_b :: "real list" where
  "row_ties_b = [1, 0, 1, 1, 1, 1, 1, 1, 1, 1, 1, 1, 1, 1, 1, 1, 1, 1]"

definition est_ties_a :: estimator where
  "est_ties_a = \<lparr>predictions = [row_ties_a], global_step = 0\<rparr>"

definition est_ties_b :: estimator where
  "est_ties_b = \<lparr>predictions = [row_ties_b], global_step = 0\<rparr>"

section \<open>Properties\<close>

subsection \<open>Sorting routines\<close>

lemma is_argsort_distinct: "is_argsort row p \<Longrightarrow> distinct p"
  by (metis is_argsort_def distinct_upt mset_eq_imp_distinct_iff)

lemma is_argsort_set: "is_argsort row p \<Longrightarrow> set p = {0..<length row}"
  by (metis is_argsort_def mset_eq_setD set_upt)

lemma is_argsort_length: "is_argsort row p \<Longrightarrow> length p = length row"
  by (metis is_argsort_def length_upt mset_eq_length minus_nat.diff_0)

lemma is_argsort_insertion: "is_argsort row (argsort_insertion row)"
  by (simp add: is_argsort_def argsort_insertion_def)

lemma argsort_spec_insertion: "argsort_spec argsort_insertion"
  by (simp add: argsort_spec_def is_argsort_insertion)

subsection \<open>The quicksort is an argsort\<close>

text \<open>
  The partition keeps the index list a permutation, leaves no larger score before the
  pivot and no smaller one behind it; so the quicksort returns the indices it is given
  by ascending score, as the contract of \<open>argsort\<close> demands.
\<close>

lemma swap_nth:
  "a < length t \<Longrightarrow> b < length t \<Longrightarrow>
     swap t a b ! x = (if x = b then t ! a else if x = a then t ! b else t ! x)"
  by (simp add: swap_def nth_list_update)

lemma length_swap: "length (swap t a b) = length t"
  by (simp add: swap_def)

lemma mset_swap_indices: "a < length t \<Longrightarrow> b < length t \<Longrightarrow> mset (swap t a b) = mset t"
  unfolding swap_def by (rule mset_swap)

lemma scan_up_spec:
  assumes "Suc i \<le> hi"
  shows "i < scan_up v vp t hi i \<and> scan_up v vp t hi i \<le> hi \<and>
     (\<forall>x. i < x \<and> x < scan_up v vp t hi i \<longrightarrow> v ! (t ! x) < vp) \<and>
     (scan_up v vp t hi i = hi \<or> \<not> v ! (t ! scan_up v vp t hi i) < vp)"
  using assms
proof (induction v vp t hi i rule: scan_up.induct)
  case (1 v vp t hi i)
  show ?case
  proof (cases "Suc i < hi \<and> v ! (t ! Suc i) < vp")
    case True
    then have eq: "scan_up v vp t hi i = scan_up v vp t hi (Suc i)"
      by (subst scan_up.simps) simp
    from True have "Suc (Suc i) \<le> hi" by simp
    with "1.IH"[OF True] have ih: "Suc i < scan_up v vp t hi (Suc i)"
      "scan_up v vp t hi (Suc i) \<le> hi"
      "\<forall>x. Suc i < x \<and> x < scan_up v vp t hi (Suc i) \<longrightarrow> v ! (t ! x) < vp"
      "scan_up v vp t hi (Suc i) = hi \<or> \<not> v ! (t ! scan_up v vp t hi (Suc i)) < vp"
      by simp_all
    have "\<forall>x. i < x \<and> x < scan_up v vp t hi (Suc i) \<longrightarrow> v ! (t ! x) < vp"
    proof (intro allI impI)
      fix x assume "i < x \<and> x < scan_up v vp t hi (Suc i)"
      then have "x = Suc i \<or> (Suc i < x \<and> x < scan_up v vp t hi (Suc i))" by auto
      with True ih(3) show "v ! (t ! x) < vp" by blast
    qed
    with ih show ?thesis unfolding eq by simp
  next
    case False
    then have eq: "scan_up v vp t hi i = Suc i"
      by (subst scan_up.simps) auto
    from False "1.prems" have "Suc i = hi \<or> \<not> v ! (t ! Suc i) < vp" by auto
    with "1.prems" show ?thesis unfolding eq by auto
  qed
qed

lemma scan_down_spec:
  "scan_down v vp t j \<le> j \<and> (0 < j \<longrightarrow> scan_down v vp t j < j) \<and>
     (\<forall>y. scan_down v vp t j < y \<and> y < j \<longrightarrow> vp < v ! (t ! y)) \<and>
     (scan_down v vp t j = 0 \<or> \<not> vp < v ! (t ! scan_down v vp t j))"
proof (induction j)
  case 0
  show ?case by simp
next
  case (Suc j)
  show ?case
  proof (cases "vp < v ! (t ! j)")
    case True
    have "\<forall>y. scan_down v vp t j < y \<and> y < Suc j \<longrightarrow> vp < v ! (t ! y)"
    proof (intro allI impI)
      fix y assume "scan_down v vp t j < y \<and> y < Suc j"
      then have "y = j \<or> (scan_down v vp t j < y \<and> y < j)" by auto
      with True Suc show "vp < v ! (t ! y)" by blast
    qed
    with True Suc show ?thesis by (simp add: le_imp_less_Suc)
  next
    case False
    then show ?thesis by simp
  qed
qed

lemma partition_loop_spec:
  assumes "i < j" and "j \<le> hi" and "Suc hi < length t"
    and "\<forall>x\<le>i. v ! (t ! x) \<le> vp"
    and "\<forall>y. j \<le> y \<and> y < length t \<longrightarrow> vp \<le> v ! (t ! y)"
    and "v ! (t ! hi) = vp"
  shows "case partition_loop v vp t hi i j of
           (t', i') \<Rightarrow>
             mset t' = mset t \<and> i' \<le> hi \<and> v ! (t' ! hi) = vp \<and>
             (\<forall>x<i'. v ! (t' ! x) \<le> vp) \<and>
             (\<forall>y. i' \<le> y \<and> y < length t \<longrightarrow> vp \<le> v ! (t' ! y))"
  using assms
proof (induction v vp t hi i j rule: partition_loop.induct)
  case (1 v vp t hi i j)
  define i' where "i' = scan_up v vp t hi i"
  define j' where "j' = scan_down v vp t j"
  from "1.prems"(1,2) have "Suc i \<le> hi" by simp
  from scan_up_spec[OF this, of v vp t]
  have up: "i < i'" "i' \<le> hi" "\<forall>x. i < x \<and> x < i' \<longrightarrow> v ! (t ! x) < vp"
    "i' = hi \<or> \<not> v ! (t ! i') < vp"
    by (simp_all add: i'_def)
  from scan_down_spec[of v vp t j] "1.prems"(1)
  have down: "j' < j" "\<forall>y. j' < y \<and> y < j \<longrightarrow> vp < v ! (t ! y)"
    "j' = 0 \<or> \<not> vp < v ! (t ! j')"
    by (simp_all add: j'_def)
  have low: "v ! (t ! x) \<le> vp" if "x < i'" for x
  proof (cases "x \<le> i")
    case True
    with "1.prems"(4) show ?thesis by simp
  next
    case False
    with that up(3) have "v ! (t ! x) < vp" by simp
    then show ?thesis by simp
  qed
  have jlow: "v ! (t ! j') \<le> vp"
    using down(3) "1.prems"(4) by auto
  have high: "vp \<le> v ! (t ! y)" if "j' < y" "y < length t" for y
  proof (cases "y < j")
    case True
    with that down(2) have "vp < v ! (t ! y)" by simp
    then show ?thesis by simp
  next
    case False
    with that "1.prems"(5) show ?thesis by simp
  qed
  have ihigh: "vp \<le> v ! (t ! i')"
    using up(4) "1.prems"(6) by auto
  show ?case
  proof (cases "j' \<le> i'")
    case True
    then have eq: "partition_loop v vp t hi i j = (t, i')"
      by (subst partition_loop.simps) (simp add: Let_def i'_def j'_def)
    have "vp \<le> v ! (t ! y)" if "i' \<le> y" "y < length t" for y
    proof (cases "y = i'")
      case True
      with ihigh show ?thesis by simp
    next
      case False
      with that \<open>j' \<le> i'\<close> have "j' < y" by simp
      then show ?thesis using that(2) by (rule high)
    qed
    with low up(2) "1.prems"(6) show ?thesis
      unfolding eq by simp
  next
    case False
    then have ij: "i' < j'" by simp
    let ?t = "swap t i' j'"
    have li: "i' < length t" and lj: "j' < length t"
      using ij down(1) "1.prems"(2,3) by simp_all
    from False have eq: "partition_loop v vp t hi i j = partition_loop v vp ?t hi i' j'"
      by (subst partition_loop.simps) (simp add: Let_def i'_def j'_def)
    have nth: "?t ! x = (if x = j' then t ! i' else if x = i' then t ! j' else t ! x)" for x
      using li lj by (rule swap_nth)
    have p1: "j' \<le> hi" using down(1) "1.prems"(2) by simp
    have p2: "Suc hi < length ?t" using "1.prems"(3) by (simp add: length_swap)
    have p3: "\<forall>x\<le>i'. v ! (?t ! x) \<le> vp"
      using low jlow ij by (auto simp: nth)
    have p4: "\<forall>y. j' \<le> y \<and> y < length ?t \<longrightarrow> vp \<le> v ! (?t ! y)"
      using high ihigh ij by (auto simp: nth length_swap)
    have p5: "v ! (?t ! hi) = vp"
      using "1.prems"(6) ij p1 down(1) "1.prems"(2) by (simp add: nth)
    from "1.IH"[OF i'_def j'_def False ij p1 p2 p3 p4 p5]
    show ?thesis
      unfolding eq by (simp add: mset_swap_indices[OF li lj] length_swap split_beta)
  qed
qed

lemma swap_if_less_spec:
  assumes "a < length t" and "b < length t"
  shows "length (swap_if_less v t a b) = length t"
    and "mset (swap_if_less v t a b) = mset t"
    and "v ! (swap_if_less v t a b ! b) \<le> v ! (swap_if_less v t a b ! a)"
    and "x \<noteq> a \<Longrightarrow> x \<noteq> b \<Longrightarrow> swap_if_less v t a b ! x = t ! x"
    and "v ! (swap_if_less v t a b ! a) = max (v ! (t ! a)) (v ! (t ! b))"
    and "v ! (swap_if_less v t a b ! b) = min (v ! (t ! a)) (v ! (t ! b))"
  using assms
  by (auto simp: swap_if_less_def length_swap mset_swap_indices swap_nth)

lemma median_of_three:
  fixes v :: "real list" and t :: "nat list"
  assumes "0 < pm" and "pm < pr" and "pr < length t"
  defines "t3 \<equiv> swap_if_less v (swap_if_less v (swap_if_less v t pm 0) pr pm) pm 0"
  shows "length t3 = length t" and "mset t3 = mset t"
    and "v ! (t3 ! 0) \<le> v ! (t3 ! pm)" and "v ! (t3 ! pm) \<le> v ! (t3 ! pr)"
proof -
  let ?t1 = "swap_if_less v t pm 0"
  let ?t2 = "swap_if_less v ?t1 pr pm"
  from assms(1-3) have n: "0 < length t" "pm < length t" "pr < length t" by linarith+
  have l1: "length ?t1 = length t" and m1: "mset ?t1 = mset t"
    using n by (simp_all add: swap_if_less_spec)
  have l2: "length ?t2 = length t" and m2: "mset ?t2 = mset t"
    using n l1 m1 by (simp_all add: swap_if_less_spec)
  show "length t3 = length t" and "mset t3 = mset t"
    unfolding t3_def using n l2 m2 by (simp_all add: swap_if_less_spec)
  have b2: "v ! (?t2 ! pm) \<le> v ! (?t2 ! pr)"
    using n l1 by (intro swap_if_less_spec(3)) simp_all
  have same_pr: "t3 ! pr = ?t2 ! pr"
    unfolding t3_def using n l2 assms(1,2) by (intro swap_if_less_spec(4)) simp_all
  have b1: "v ! (?t1 ! 0) \<le> v ! (?t1 ! pm)"
    using n by (intro swap_if_less_spec(3)) simp_all
  have same_0: "?t2 ! 0 = ?t1 ! 0"
    using n l1 assms(1,2) by (intro swap_if_less_spec(4)) simp_all
  have pr2: "v ! (?t2 ! pr) = max (v ! (?t1 ! pr)) (v ! (?t1 ! pm))"
    using n l1 by (intro swap_if_less_spec(5)) simp_all
  have "v ! (?t2 ! 0) \<le> v ! (?t2 ! pr)"
    using b1 by (simp add: same_0 pr2 le_max_iff_disj)
  moreover have "v ! (t3 ! pm) = max (v ! (?t2 ! pm)) (v ! (?t2 ! 0))"
    unfolding t3_def using n l2 by (intro swap_if_less_spec(5)) simp_all
  ultimately show "v ! (t3 ! pm) \<le> v ! (t3 ! pr)"
    using b2 by (simp add: same_pr)
  show "v ! (t3 ! 0) \<le> v ! (t3 ! pm)"
    unfolding t3_def using n l2 by (intro swap_if_less_spec(3)) simp_all
qed

lemma partition_step_spec:
  assumes "\<not> length t - 1 \<le> SMALL_QUICKSORT"
  shows "case partition_step v t of
           (t', i) \<Rightarrow>
             mset t' = mset t \<and> i < length t \<and>
             (\<forall>x<i. v ! (t' ! x) \<le> v ! (t' ! i)) \<and>
             (\<forall>y. i < y \<and> y < length t \<longrightarrow> v ! (t' ! i) \<le> v ! (t' ! y))"
proof -
  define pr where "pr = length t - 1"
  define pm where "pm = pr div 2"
  define hi where "hi = pr - 1"
  define t3 where "t3 = swap_if_less v (swap_if_less v (swap_if_less v t pm 0) pr pm) pm 0"
  define vp where "vp = v ! (t3 ! pm)"
  define t4 where "t4 = swap t3 pm hi"
  from assms have big: "18 \<le> length t" by (simp add: SMALL_QUICKSORT_def)
  then have idx: "0 < pm" "pm < hi" "hi < pr" "pr < length t" "pm < pr" "Suc hi = pr"
    "Suc pr = length t"
    by (simp_all add: pr_def pm_def hi_def)
  note m3 = median_of_three[OF idx(1,5,4), of v, folded t3_def]
  have l4: "length t4 = length t" by (simp add: t4_def length_swap m3(1))
  have in3: "pm < length t3" "hi < length t3" using idx m3(1) by simp_all
  have m4: "mset t4 = mset t" by (simp add: t4_def mset_swap_indices[OF in3] m3(2))
  have nth4: "t4 ! x = (if x = hi then t3 ! pm else if x = pm then t3 ! hi else t3 ! x)" for x
    unfolding t4_def using in3 by (rule swap_nth)
  have q1: "(0::nat) < hi" using idx by simp
  have q3: "Suc hi < length t4" using idx l4 by simp
  have q4: "\<forall>x\<le>0. v ! (t4 ! x) \<le> vp"
    using idx m3(3) by (simp add: nth4 vp_def)
  have q5: "\<forall>y. hi \<le> y \<and> y < length t4 \<longrightarrow> vp \<le> v ! (t4 ! y)"
  proof (intro allI impI)
    fix y assume "hi \<le> y \<and> y < length t4"
    with idx(6,7) l4 have "y = hi \<or> y = pr" by linarith
    with idx m3(4) show "vp \<le> v ! (t4 ! y)" by (auto simp: nth4 vp_def)
  qed
  have q6: "v ! (t4 ! hi) = vp" by (simp add: nth4 vp_def)
  obtain t5 i where loop: "partition_loop v vp t4 hi 0 hi = (t5, i)"
    by (cases "partition_loop v vp t4 hi 0 hi") auto
  from partition_loop_spec[OF q1 order_refl q3 q4 q5 q6]
  have r: "mset t5 = mset t4" "i \<le> hi" "v ! (t5 ! hi) = vp" "\<forall>x<i. v ! (t5 ! x) \<le> vp"
    "\<forall>y. i \<le> y \<and> y < length t4 \<longrightarrow> vp \<le> v ! (t5 ! y)"
    by (simp_all add: loop)
  have l5: "length t5 = length t" using r(1) l4 by (metis mset_eq_length)
  have in5: "i < length t5" "hi < length t5" using r(2) idx l5 by simp_all
  let ?t6 = "swap t5 i hi"
  have nth6: "?t6 ! x = (if x = hi then t5 ! i else if x = i then t5 ! hi else t5 ! x)" for x
    using in5 by (rule swap_nth)
  have step: "partition_step v t = (?t6, i)"
    unfolding partition_step_def Let_def
    unfolding pr_def[symmetric]
    unfolding pm_def[symmetric] hi_def[symmetric]
    unfolding t3_def[symmetric]
    unfolding vp_def[symmetric] t4_def[symmetric]
    by (simp only: loop prod.case)
  have pivot: "v ! (?t6 ! i) = vp" using r(3) by (simp add: nth6)
  have lower: "\<forall>x<i. v ! (?t6 ! x) \<le> vp"
    using r(2,4) by (auto simp: nth6)
  have upper: "\<forall>y. i < y \<and> y < length t \<longrightarrow> vp \<le> v ! (?t6 ! y)"
    using r(5) l4 by (auto simp: nth6)
  have "mset ?t6 = mset t"
    using r(1) m4 by (simp add: mset_swap_indices[OF in5])
  moreover have "i < length t" using in5 l5 by simp
  ultimately show ?thesis
    unfolding step using pivot lower upper by simp
qed

lemma aquicksort_spec:
  "mset (aquicksort v t) = mset t \<and> sorted (map (\<lambda>i. v ! i) (aquicksort v t))"
proof (induction v t rule: aquicksort.induct)
  case (1 v t)
  show ?case
  proof (cases "length t - 1 \<le> SMALL_QUICKSORT")
    case True
    then have "aquicksort v t = sort_key (\<lambda>i. v ! i) t"
      by (subst aquicksort.simps) simp
    then show ?thesis by simp
  next
    case False
    obtain t' i where step: "partition_step v t = (t', i)"
      by (cases "partition_step v t") auto
    from partition_step_spec[OF False, of v]
    have p: "mset t' = mset t" "i < length t"
      "\<forall>x<i. v ! (t' ! x) \<le> v ! (t' ! i)"
      "\<forall>y. i < y \<and> y < length t \<longrightarrow> v ! (t' ! i) \<le> v ! (t' ! y)"
      by (simp_all add: step)
    have l: "length t' = length t" using p(1) by (metis mset_eq_length)
    let ?L = "aquicksort v (take i t')" and ?R = "aquicksort v (drop (Suc i) t')"
    from "1.IH"(1)[OF False step[symmetric]]
    have L: "mset ?L = mset (take i t')" "sorted (map (\<lambda>i. v ! i) ?L)" by simp_all
    from "1.IH"(2)[OF False step[symmetric]]
    have R: "mset ?R = mset (drop (Suc i) t')" "sorted (map (\<lambda>i. v ! i) ?R)" by simp_all
    have eq: "aquicksort v t = ?L @ t' ! i # ?R"
      using False by (subst aquicksort.simps) (simp add: step)
    have "t' = take i t' @ t' ! i # drop (Suc i) t'"
      using p(2) l by (simp add: id_take_nth_drop)
    then have "mset t' = mset (take i t') + {#t' ! i#} + mset (drop (Suc i) t')"
      by (metis mset.simps(2) mset_append add_mset_add_single union_assoc union_commute)
    then have m: "mset (aquicksort v t) = mset t"
      by (simp add: eq L(1) R(1) p(1)[symmetric])
    have setL: "\<forall>x\<in>set ?L. v ! x \<le> v ! (t' ! i)"
    proof
      fix x assume "x \<in> set ?L"
      then have "x \<in> set (take i t')" using L(1) by (metis mset_eq_setD)
      then obtain k where "k < i" "x = t' ! k"
        using p(2) l by (auto simp: in_set_conv_nth)
      with p(3) show "v ! x \<le> v ! (t' ! i)" by simp
    qed
    have setR: "\<forall>y\<in>set ?R. v ! (t' ! i) \<le> v ! y"
    proof
      fix y assume "y \<in> set ?R"
      then have "y \<in> set (drop (Suc i) t')" using R(1) by (metis mset_eq_setD)
      then obtain k where "k < length t' - Suc i" "y = t' ! (Suc i + k)"
        by (auto simp: in_set_conv_nth)
      with p(4) l show "v ! (t' ! i) \<le> v ! y" by simp
    qed
    have "sorted (map (\<lambda>i. v ! i) (?L @ t' ! i # ?R))"
      using L(2) R(2) setL setR by (fastforce simp: sorted_append)
    with m show ?thesis by (simp add: eq)
  qed
qed

lemma argsort_spec_quick: "argsort_spec argsort_quick"
  by (simp add: argsort_spec_def is_argsort_def argsort_quick_def aquicksort_spec)

subsection \<open>Hits of one row and of the matrix\<close>

lemma snd_pairs: "map snd (map (Pair u) ys) = ys"
  by (induction ys) auto

lemma map_nth_fun: "map (\<lambda>u. f (xs ! u)) [0..<length xs] = map f xs"
proof -
  have "map f xs = map f (map (\<lambda>u. xs ! u) [0..<length xs])"
    by (simp only: map_nth)
  then show ?thesis
    by (simp only: map_map comp_def)
qed

lemma map_snd_hit_indicies: "map snd (hit_indicies tops) = concat (map row_hits tops)"
proof -
  have "map snd (hit_indicies tops) =
      concat (map (\<lambda>u. map snd (map (Pair u) (row_hits (tops ! u)))) [0..<length tops])"
    by (simp only: hit_indicies_def row_hits_def map_concat map_map comp_def)
  also have "\<dots> = concat (map (\<lambda>u. row_hits (tops ! u)) [0..<length tops])"
    by (simp only: snd_pairs)
  also have "\<dots> = concat (map row_hits tops)"
    by (simp only: map_nth_fun)
  finally show ?thesis .
qed

lemma filter_nth_eq:
  "filter (\<lambda>r. (y # ys) ! r = x) [0..<length (y # ys)] =
     (if y = x then [0] else []) @ map Suc (filter (\<lambda>r. ys ! r = x) [0..<length ys])"
proof -
  have "[0..<length (y # ys)] = 0 # map Suc [0..<length ys]"
    by (simp add: upt_conv_Cons map_Suc_upt del: upt_Suc)
  then show ?thesis
    by (simp add: filter_map comp_def)
qed

lemma rank_of_None: "rank_of x t = None \<longleftrightarrow> x \<notin> set t"
  by (induction t) auto

lemma filter_nth_notin: "x \<notin> set t \<Longrightarrow> filter (\<lambda>r. t ! r = x) [0..<length t] = []"
  by (auto simp: filter_empty_conv)

lemma filter_nth_distinct:
  "distinct t \<Longrightarrow> filter (\<lambda>r. t ! r = x) [0..<length t] =
     (case rank_of x t of None \<Rightarrow> [] | Some r \<Rightarrow> [r])"
proof (induction t)
  case Nil
  then show ?case by simp
next
  case (Cons y ys)
  show ?case
  proof (cases "y = x")
    case True
    with Cons.prems have "x \<notin> set ys" by simp
    then have "filter (\<lambda>r. ys ! r = x) [0..<length ys] = []"
      by (rule filter_nth_notin)
    then show ?thesis using True
      by (simp only: filter_nth_eq) simp
  next
    case False
    with Cons show ?thesis
      by (simp only: filter_nth_eq) (simp split: option.splits)
  qed
qed

lemma row_hits_distinct:
  "distinct t \<Longrightarrow> row_hits t = (case rank_of 0 t of None \<Rightarrow> [] | Some r \<Rightarrow> [r])"
  unfolding row_hits_def by (rule filter_nth_distinct)

lemma evaluate_model_well_shaped:
  assumes "well_shaped est ds"
  shows "evaluate_model srt est ds =
     Inr \<lparr>HR = real (length (hit_indicies (top_indicies srt (scores_by_user est ds))))
                  / real_of_int (num_users ds),
          NDCG = (\<Sum>r\<leftarrow>map snd (hit_indicies (top_indicies srt (scores_by_user est ds))).
                    ln 2 / ln (real r + 2)) / real_of_int (num_users ds),
          GLOBAL_STEP = global_step est\<rparr>"
  using assms
  by (simp add: evaluate_model_def well_shaped_def concatenate_def reshape_def
      scores_by_user_def row_width_def Let_def)

lemma evaluate_model_ill_shaped:
  assumes "\<not> well_shaped est ds"
  shows "\<exists>e. evaluate_model srt est ds = Inl e"
  using assms
  by (auto simp: evaluate_model_def well_shaped_def concatenate_def reshape_def not_less)

lemma row_hit_iff_rank: "row_hit t \<longleftrightarrow> rank_of 0 t \<noteq> None"
  by (simp add: row_hit_def rank_of_None)

lemma length_row_hits: "distinct t \<Longrightarrow> length (row_hits t) = (if row_hit t then 1 else 0)"
  by (auto simp: row_hits_distinct row_hit_iff_rank split: option.splits)

lemma gain_row_hits:
  "distinct t \<Longrightarrow> (\<Sum>r\<leftarrow>row_hits t. ln 2 / ln (real r + 2)) = row_gain t"
  by (simp add: row_hits_distinct row_gain_def split: option.splits)

lemma length_hit_indicies:
  assumes "\<forall>t\<in>set tops. distinct t"
  shows "length (hit_indicies tops) = length (filter row_hit tops)"
proof -
  have "length (hit_indicies tops) = length (map snd (hit_indicies tops))" by simp
  also have "\<dots> = (\<Sum>t\<leftarrow>tops. length (row_hits t))"
    by (simp only: map_snd_hit_indicies length_concat) (simp add: comp_def)
  also have "\<dots> = (\<Sum>t\<leftarrow>tops. if row_hit t then 1 else 0)"
    using assms by (intro arg_cong[where f=sum_list] map_cong refl) (simp add: length_row_hits)
  also have "\<dots> = length (filter row_hit tops)"
    by (induction tops) auto
  finally show ?thesis .
qed

lemma gain_hit_indicies:
  assumes "\<forall>t\<in>set tops. distinct t"
  shows "(\<Sum>r\<leftarrow>map snd (hit_indicies tops). ln 2 / ln (real r + 2)) = (\<Sum>t\<leftarrow>tops. row_gain t)"
  using assms unfolding map_snd_hit_indicies
  by (induction tops) (simp_all add: gain_row_hits)

lemma distinct_top_indicies:
  assumes "argsort_spec srt" "t \<in> set (top_indicies srt scores)"
  shows "distinct t"
proof -
  from assms(2) obtain row where "t = rev (drop (length (srt row) - TOP_K) (srt row))"
    by (auto simp: top_indicies_def)
  moreover have "distinct (srt row)"
    using assms(1) by (auto simp: argsort_spec_def intro: is_argsort_distinct)
  ultimately show ?thesis by simp
qed

lemma evaluate_model_eq_spec:
  assumes "argsort_spec srt" and "well_shaped est ds"
  shows "evaluate_model srt est ds =
     Inr \<lparr>HR = spec_hit_ratio (top_indicies srt (scores_by_user est ds)) (num_users ds),
          NDCG = spec_ndcg (top_indicies srt (scores_by_user est ds)) (num_users ds),
          GLOBAL_STEP = global_step est\<rparr>"
proof -
  have d: "\<forall>t\<in>set (top_indicies srt (scores_by_user est ds)). distinct t"
    using assms(1) by (blast intro: distinct_top_indicies)
  show ?thesis
    by (simp only: evaluate_model_well_shaped[OF assms(2)] length_hit_indicies[OF d]
        gain_hit_indicies[OF d] spec_hit_ratio_def spec_ndcg_def)
qed

subsection \<open>Shape and bounds\<close>

lemma length_top_indicies: "length (top_indicies srt scores) = length scores"
  by (simp add: top_indicies_def)

lemma length_scores_by_user: "length (scores_by_user est ds) = nat (num_users ds)"
  by (simp add: scores_by_user_def split_rows_def)

lemma width_scores_by_user:
  assumes "well_shaped est ds" and "row \<in> set (scores_by_user est ds)"
  shows "length row = row_width est ds"
proof -
  define a where "a = concat (predictions est)"
  define n where "n = nat (num_users ds)"
  define w where "w = length a div n"
  from assms(1) have "int (length a) mod int n = 0"
    by (simp add: well_shaped_def a_def n_def)
  then have "length a mod n = 0"
    by (metis of_nat_mod of_nat_eq_0_iff)
  then have len: "length a = n * w"
    unfolding w_def by (metis mult_div_mod_eq add.right_neutral)
  from assms(2) obtain u where u: "u < n" and row: "row = take w (drop (u * w) a)"
    by (auto simp: scores_by_user_def split_rows_def row_width_def a_def n_def w_def)
  from u have "Suc u \<le> n" by simp
  then have "Suc u * w \<le> n * w" by (rule mult_le_mono1)
  then have "u * w + w \<le> length a" by (simp add: len add.commute)
  then show ?thesis
    by (simp add: row row_width_def a_def n_def w_def)
qed

lemma ln_gain_bounds: "0 \<le> ln 2 / ln (real r + 2) \<and> ln 2 / ln (real r + 2) \<le> 1"
proof -
  have "ln (2::real) \<le> ln (real r + 2)" by simp
  moreover have "0 < ln (2::real)" by simp
  ultimately show ?thesis by simp
qed

lemma row_gain_nonneg: "0 \<le> row_gain t"
  using ln_gain_bounds by (simp add: row_gain_def split: option.splits)

lemma row_gain_le_hit: "row_gain t \<le> (if row_hit t then 1 else 0)"
  using ln_gain_bounds by (simp add: row_gain_def row_hit_iff_rank split: option.splits)

lemma sum_row_gain_nonneg: "0 \<le> (\<Sum>t\<leftarrow>tops. row_gain t)"
  by (induction tops) (simp_all add: row_gain_nonneg)

lemma sum_row_gain_le_hits: "(\<Sum>t\<leftarrow>tops. row_gain t) \<le> real (length (filter row_hit tops))"
proof (induction tops)
  case Nil
  then show ?case by simp
next
  case (Cons t tops)
  then show ?case using row_gain_le_hit[of t] by (simp split: if_splits)
qed

lemma spec_ndcg_le_hit_ratio: "0 < n \<Longrightarrow> spec_ndcg tops n \<le> spec_hit_ratio tops n"
  by (simp add: spec_ndcg_def spec_hit_ratio_def divide_right_mono sum_row_gain_le_hits)

lemma spec_ndcg_nonneg: "0 < n \<Longrightarrow> 0 \<le> spec_ndcg tops n"
  by (simp add: spec_ndcg_def sum_row_gain_nonneg)

lemma spec_hit_ratio_nonneg: "0 < n \<Longrightarrow> 0 \<le> spec_hit_ratio tops n"
  by (simp add: spec_hit_ratio_def)

lemma spec_hit_ratio_le_1:
  assumes "0 < n" and "length tops = nat n"
  shows "spec_hit_ratio tops n \<le> 1"
proof -
  have "length (filter row_hit tops) \<le> nat n"
    using assms(2) length_filter_le[of row_hit tops] by simp
  then have "real (length (filter row_hit tops)) \<le> real_of_int n"
    using assms(1) by linarith
  then show ?thesis using assms(1) by (simp add: spec_hit_ratio_def)
qed

lemma full_ranking_hit:
  assumes "is_argsort row p" and "row \<noteq> []" and "length row \<le> TOP_K"
  shows "row_hit (rev (drop (length p - TOP_K) p))"
proof -
  have "length p \<le> TOP_K"
    using assms(1,3) by (simp add: is_argsort_length)
  then have "drop (length p - TOP_K) p = p" by simp
  moreover have "0 \<in> set p"
    using assms(1,2) by (simp add: is_argsort_set)
  ultimately show ?thesis by (simp add: row_hit_def)
qed

lemma filter_all: "\<forall>x\<in>set xs. P x \<Longrightarrow> filter P xs = xs"
  by (induction xs) auto

text \<open>A matrix of rows without columns has no hit.\<close>

lemma no_columns_no_hit:
  assumes "argsort_spec srt"
  shows "evaluate_model srt \<lparr>predictions = [[]], global_step = g\<rparr> \<lparr>num_users = 1\<rparr> =
           Inr \<lparr>HR = 0, NDCG = 0, GLOBAL_STEP = g\<rparr>"
proof -
  from assms have "is_argsort [] (srt [])" by (simp add: argsort_spec_def)
  then have "srt [] = []" by (simp add: is_argsort_def)
  then show ?thesis
    by (simp add: evaluate_model_def concatenate_def reshape_def split_rows_def
        top_indicies_def hit_indicies_def)
qed

subsection \<open>The rank of an untied true item\<close>

text \<open>
  When no other column ties with column 0, every argsort puts the columns that score
  above it, and only those, behind it: its rank in the reversed tail is their number.
\<close>

lemma rank_of_take_append:
  "x \<notin> set as \<Longrightarrow>
     rank_of x (take k (as @ x # bs)) = (if length as < k then Some (length as) else None)"
proof (induction as arbitrary: k)
  case Nil
  then show ?case by (cases k) simp_all
next
  case (Cons a as)
  then show ?case by (cases k) auto
qed

lemma rev_drop_take: "rev (drop (length p - k) p) = take k (rev p)"
  by (cases "k \<le> length p") (simp_all add: rev_drop)

lemma better_count_card:
  assumes "row \<noteq> []"
  shows "better_count row = card {j. j < length row \<and> row ! 0 < row ! j}"
proof -
  from assms obtain s negs where row: "row = s # negs" by (cases row) auto
  have "card {j. j < length row \<and> row ! 0 < row ! j} = length (filter (\<lambda>x. row ! 0 < x) row)"
    by (simp only: length_filter_conv_card)
  also have "\<dots> = better_count row"
    by (simp add: row better_count_def)
  finally show ?thesis by simp
qed

lemma rank_untied:
  assumes p: "is_argsort row p" and u: "true_item_untied row"
  shows "rank_of 0 (rev (drop (length p - k) p)) =
           (if better_count row < k then Some (better_count row) else None)"
proof -
  let ?key = "\<lambda>i. row ! i"
  from u have ne: "row \<noteq> []" by (simp add: true_item_untied_def)
  have setp: "set p = {0..<length row}" using p by (rule is_argsort_set)
  have dp: "distinct p" using p by (rule is_argsort_distinct)
  have sp: "sorted (map ?key p)" using p by (simp add: is_argsort_def)
  from ne setp have "0 \<in> set p" by simp
  then obtain xs ys where split: "p = xs @ 0 # ys" by (auto dest: split_list)
  from dp split have nx: "0 \<notin> set xs" and ny: "0 \<notin> set ys" by auto
  from sp split have le_x: "\<forall>x\<in>set xs. ?key x \<le> ?key 0" and le_y: "\<forall>y\<in>set ys. ?key 0 \<le> ?key y"
    by (auto simp: sorted_append)
  have neq: "?key j \<noteq> ?key 0" if "j < length row" "j \<noteq> 0" for j
  proof -
    from ne obtain s negs where row: "row = s # negs" by (cases row) auto
    from that have "row ! j \<in> set (tl row)" by (cases j) (auto simp: row)
    with u show ?thesis by (cases row) (auto simp: true_item_untied_def)
  qed
  have ys_set: "set ys = {j. j < length row \<and> ?key 0 < ?key j}"
  proof (intro set_eqI iffI)
    fix j assume j: "j \<in> set ys"
    then have "j \<in> set p" by (simp add: split)
    then have "j < length row" by (simp add: setp)
    moreover from j ny have "j \<noteq> 0" by metis
    ultimately have "?key j \<noteq> ?key 0" by (rule neq)
    with le_y j \<open>j < length row\<close> show "j \<in> {j. j < length row \<and> ?key 0 < ?key j}" by fastforce
  next
    fix j assume "j \<in> {j. j < length row \<and> ?key 0 < ?key j}"
    then have j: "j < length row" "?key 0 < ?key j" by auto
    then have "j \<in> set p" by (simp add: setp)
    moreover have "j \<notin> set xs" using le_x j(2) by fastforce
    moreover have "j \<noteq> 0" using j(2) less_irrefl by metis
    ultimately show "j \<in> set ys" by (simp add: split)
  qed
  from dp split have "distinct ys" by simp
  then have "length ys = card (set ys)" by (simp add: distinct_card)
  also have "\<dots> = better_count row" by (simp only: ys_set better_count_card[OF ne])
  finally have len: "length ys = better_count row" .
  have "rev p = rev ys @ 0 # rev xs"
    by (simp add: split)
  then have "rev (drop (length p - k) p) = take k (rev ys @ 0 # rev xs)"
    by (simp only: rev_drop_take)
  moreover have "0 \<notin> set (rev ys)" using ny by simp
  then have "rank_of 0 (take k (rev ys @ 0 # rev xs)) =
      (if length (rev ys) < k then Some (length (rev ys)) else None)"
    by (rule rank_of_take_append)
  ultimately show ?thesis
    by (simp add: len)
qed

lemma row_gain_untied:
  assumes "is_argsort row p" and "true_item_untied row"
  shows "row_gain (rev (drop (length p - TOP_K) p)) =
           (if better_count row < TOP_K then ln 2 / ln (real (better_count row) + 2) else 0)"
  by (simp add: row_gain_def rank_untied[OF assms])

lemma row_hit_untied:
  assumes "is_argsort row p" and "true_item_untied row"
  shows "row_hit (rev (drop (length p - TOP_K) p)) \<longleftrightarrow> better_count row < TOP_K"
  by (simp add: row_hit_iff_rank rank_untied[OF assms])

lemma highest_untied: "true_item_highest row \<Longrightarrow> true_item_untied row"
  by (auto simp: true_item_highest_def true_item_untied_def)

lemma highest_better_count: "true_item_highest row \<Longrightarrow> better_count row = 0"
  by (auto simp: true_item_highest_def better_count_def filter_empty_conv)

lemma sum_list_all_ones: "\<forall>x\<in>set xs. f x = (1::real) \<Longrightarrow> (\<Sum>x\<leftarrow>xs. f x) = real (length xs)"
  by (induction xs) auto

subsection \<open>Sorting by comparisons\<close>

lemma comparison_based_scale:
  assumes "comparison_based srt" and "0 < c"
  shows "srt (map (\<lambda>s. c * s) row) = srt row"
proof -
  have "same_order (map (\<lambda>s. c * s) row) row"
    using assms(2) by (simp add: same_order_def mult_less_cancel_left_pos)
  with assms(1) show ?thesis
    unfolding comparison_based_def by blast
qed

lemma top_indicies_scale_rows:
  assumes "comparison_based srt" and "length cs = length scores" and "\<forall>c\<in>set cs. 0 < c"
  shows "top_indicies srt (scale_rows cs scores) = top_indicies srt scores"
  using assms(2,3)
proof (induction cs scores rule: list_induct2)
  case Nil
  then show ?case by (simp add: scale_rows_def top_indicies_def)
next
  case (Cons c cs row scores)
  then have "top_indicies srt (scale_rows cs scores) = top_indicies srt scores" by simp
  moreover have "srt (map (\<lambda>s. c * s) row) = srt row"
    using assms(1) Cons.prems by (simp add: comparison_based_scale)
  ultimately show ?case
    by (simp add: scale_rows_def top_indicies_def)
qed

lemma insort_key_cong_cmp:
  "\<forall>j\<in>set js. (f i \<le> f j) = (g i \<le> g j) \<Longrightarrow> insort_key f i js = insort_key g i js"
  by (induction js) auto

lemma sort_key_cong_cmp:
  "\<forall>i\<in>set is. \<forall>j\<in>set is. (f i \<le> f j) = (g i \<le> g j) \<Longrightarrow> sort_key f is = sort_key g is"
proof (induction "is")
  case Nil
  then show ?case by simp
next
  case (Cons i "is")
  then have eq: "sort_key f is = sort_key g is" by simp
  have "insort_key f i (sort_key g is) = insort_key g i (sort_key g is)"
    using Cons.prems by (intro insort_key_cong_cmp) simp
  with eq show ?case by simp
qed

lemma comparison_based_insertion: "comparison_based argsort_insertion"
  unfolding comparison_based_def argsort_insertion_def
proof (intro allI impI)
  fix xs ys :: "real list"
  assume so: "same_order xs ys"
  then have "\<forall>i\<in>set [0..<length xs]. \<forall>j\<in>set [0..<length xs].
      (xs ! i \<le> xs ! j) = (ys ! i \<le> ys ! j)"
    by (simp add: same_order_def linorder_not_less[symmetric])
  then have "sort_key (\<lambda>i. xs ! i) [0..<length xs] = sort_key (\<lambda>i. ys ! i) [0..<length xs]"
    by (rule sort_key_cong_cmp)
  with so show "sort_key (\<lambda>i. xs ! i) [0..<length xs] = sort_key (\<lambda>i. ys ! i) [0..<length ys]"
    by (simp add: same_order_def)
qed

text \<open>The quicksort decides by comparisons only.\<close>

lemma same_order_less:
  "same_order xs ys \<Longrightarrow> a < length xs \<Longrightarrow> b < length xs \<Longrightarrow> (xs ! a < xs ! b) = (ys ! a < ys ! b)"
  by (simp add: same_order_def)

lemma set_swap: "a < length t \<Longrightarrow> b < length t \<Longrightarrow> set (swap t a b) = set t"
  by (metis mset_swap_indices set_mset_mset)

lemma swap_if_less_same_order:
  assumes "same_order xs ys" and "\<forall>x\<in>set t. x < length xs" and "a < length t" and "b < length t"
  shows "swap_if_less xs t a b = swap_if_less ys t a b"
  using assms by (simp add: swap_if_less_def same_order_less)

lemma set_swap_if_less:
  "a < length t \<Longrightarrow> b < length t \<Longrightarrow> set (swap_if_less v t a b) = set t"
  by (metis swap_if_less_spec(2) set_mset_mset)

lemma scan_up_same_order:
  assumes "same_order xs ys" and "\<forall>x\<in>set t. x < length xs" and "hi < length t"
    and "p < length xs"
  shows "scan_up xs (xs ! p) t hi i = scan_up ys (ys ! p) t hi i"
proof (induction "hi - i" arbitrary: i)
  case 0
  then have "\<not> Suc i < hi" by simp
  then show ?case by (subst (1 2) scan_up.simps) simp
next
  case (Suc d)
  then have "Suc i \<le> hi" by simp
  with assms(2,3) have "t ! Suc i < length xs" by simp
  with assms(1,4) have c: "(xs ! (t ! Suc i) < xs ! p) = (ys ! (t ! Suc i) < ys ! p)"
    by (simp add: same_order_less)
  from Suc have "d = hi - Suc i" by simp
  then have "scan_up xs (xs ! p) t hi (Suc i) = scan_up ys (ys ! p) t hi (Suc i)"
    by (rule Suc.hyps(1))
  with c show ?case by (subst (1 2) scan_up.simps) simp
qed

lemma scan_down_same_order:
  assumes "same_order xs ys" and "\<forall>x\<in>set t. x < length xs" and "j \<le> length t"
    and "p < length xs"
  shows "scan_down xs (xs ! p) t j = scan_down ys (ys ! p) t j"
  using assms(3)
proof (induction j)
  case 0
  show ?case by simp
next
  case (Suc j)
  then have "t ! j < length xs" using assms(2) by simp
  with assms(1,4) have "(xs ! p < xs ! (t ! j)) = (ys ! p < ys ! (t ! j))"
    by (simp add: same_order_less)
  with Suc show ?case by simp
qed

lemma partition_loop_same_order:
  assumes "same_order xs ys" and "p < length xs"
  shows "\<forall>x\<in>set t. x < length xs \<Longrightarrow> hi < length t \<Longrightarrow> Suc i \<le> hi \<Longrightarrow> j \<le> hi \<Longrightarrow>
     partition_loop xs (xs ! p) t hi i j = partition_loop ys (ys ! p) t hi i j"
proof (induction "j - i" arbitrary: t i j rule: less_induct)
  case less
  let ?i = "scan_up xs (xs ! p) t hi i" and ?j = "scan_down xs (xs ! p) t j"
  have ei: "scan_up ys (ys ! p) t hi i = ?i"
    using assms(1) less.prems(1,2) assms(2) by (rule scan_up_same_order[symmetric])
  have ej: "scan_down ys (ys ! p) t j = ?j"
    using less.prems(2,4) by (intro scan_down_same_order[symmetric] assms less.prems(1)) simp
  have bi: "i < ?i" "?i \<le> hi"
    using scan_up_spec[OF less.prems(3), of xs "xs ! p" t] by simp_all
  have bj: "?j \<le> j" using scan_down_spec[of xs "xs ! p" t j] by simp
  show ?case
  proof (cases "?j \<le> ?i")
    case True
    then show ?thesis
      by (subst (1 2) partition_loop.simps) (simp add: Let_def ei ej)
  next
    case False
    then have lt: "?i < length t" "?j < length t"
      using bj less.prems(2,4) by simp_all
    have "partition_loop xs (xs ! p) (swap t ?i ?j) hi ?i ?j =
        partition_loop ys (ys ! p) (swap t ?i ?j) hi ?i ?j"
    proof (rule less.hyps)
      show "?j - ?i < j - i" using False bi bj by simp
      show "\<forall>x\<in>set (swap t ?i ?j). x < length xs"
        using less.prems(1) by (simp add: set_swap[OF lt])
      show "hi < length (swap t ?i ?j)" using less.prems(2) by (simp add: length_swap)
      show "Suc ?i \<le> hi" using False bj less.prems(4) by simp
      show "?j \<le> hi" using bj less.prems(4) by simp
    qed
    with False show ?thesis
      by (subst (1 2) partition_loop.simps) (simp add: Let_def ei ej)
  qed
qed

lemma partition_step_same_order:
  assumes "same_order xs ys" and "\<forall>x\<in>set t. x < length xs"
    and "\<not> length t - 1 \<le> SMALL_QUICKSORT"
  shows "partition_step xs t = partition_step ys t"
proof -
  define pr where "pr = length t - 1"
  define pm where "pm = pr div 2"
  define hi where "hi = pr - 1"
  from assms(3) have big: "18 \<le> length t" by (simp add: SMALL_QUICKSORT_def)
  then have idx: "0 < length t" "pm < length t" "pr < length t" "hi < length t" "Suc 0 \<le> hi"
    unfolding pr_def pm_def hi_def by linarith+
  let ?t1 = "swap_if_less xs t pm 0"
  let ?t2 = "swap_if_less xs ?t1 pr pm"
  let ?t3 = "swap_if_less xs ?t2 pm 0"
  have l1: "length ?t1 = length t" and s1: "set ?t1 = set t"
    using idx by (simp_all add: swap_if_less_spec(1) set_swap_if_less)
  have l2: "length ?t2 = length t" and s2: "set ?t2 = set t"
    using idx l1 s1 by (simp_all add: swap_if_less_spec(1) set_swap_if_less)
  have l3: "length ?t3 = length t" and s3: "set ?t3 = set t"
    using idx l2 s2 by (simp_all add: swap_if_less_spec(1) set_swap_if_less)
  have e1: "swap_if_less ys t pm 0 = ?t1"
    using assms(1,2) idx by (simp add: swap_if_less_same_order)
  have e2: "swap_if_less ys ?t1 pr pm = ?t2"
    using assms(1,2) idx l1 s1 by (simp add: swap_if_less_same_order)
  have e3: "swap_if_less ys ?t2 pm 0 = ?t3"
    using assms(1,2) idx l2 s2 by (simp add: swap_if_less_same_order)
  let ?t4 = "swap ?t3 pm hi"
  have p: "?t3 ! pm < length xs"
    using assms(2) idx l3 s3 by (metis nth_mem)
  have "\<forall>x\<in>set ?t4. x < length xs"
    using assms(2) idx l3 s3 by (simp add: set_swap)
  moreover have "hi < length ?t4" using idx l3 by (simp add: length_swap)
  ultimately have "partition_loop xs (xs ! (?t3 ! pm)) ?t4 hi 0 hi =
      partition_loop ys (ys ! (?t3 ! pm)) ?t4 hi 0 hi"
    using idx(5) by (intro partition_loop_same_order[OF assms(1) p]) simp_all
  then show ?thesis
    unfolding partition_step_def Let_def
    unfolding pr_def[symmetric]
    unfolding pm_def[symmetric] hi_def[symmetric]
    unfolding e1 e2 e3
    by simp
qed

lemma aquicksort_same_order:
  assumes "same_order xs ys" and "\<forall>x\<in>set t. x < length xs"
  shows "aquicksort xs t = aquicksort ys t"
  using assms
proof (induction xs t rule: aquicksort.induct)
  case (1 v t)
  show ?case
  proof (cases "length t - 1 \<le> SMALL_QUICKSORT")
    case True
    have "\<forall>i\<in>set t. \<forall>j\<in>set t. (v ! i \<le> v ! j) = (ys ! i \<le> ys ! j)"
      using "1.prems" by (simp add: same_order_def linorder_not_less[symmetric])
    then have "sort_key (\<lambda>i. v ! i) t = sort_key (\<lambda>i. ys ! i) t"
      by (rule sort_key_cong_cmp)
    with True show ?thesis by (subst (1 2) aquicksort.simps) simp
  next
    case False
    obtain t' i where step: "partition_step v t = (t', i)"
      by (cases "partition_step v t") auto
    have step': "partition_step ys t = (t', i)"
      using partition_step_same_order[OF "1.prems" False] step by simp
    from partition_step_spec[OF False, of v] have "mset t' = mset t"
      by (simp add: step)
    then have "set t' = set t" by (rule mset_eq_setD)
    with "1.prems"(2) have inb: "\<forall>x\<in>set t'. x < length v" by simp
    have "\<forall>x\<in>set (take i t'). x < length v"
      using inb by (meson in_set_takeD)
    with "1.IH"(1)[OF False step[symmetric] "1.prems"(1)]
    have L: "aquicksort v (take i t') = aquicksort ys (take i t')" by simp
    have "\<forall>x\<in>set (drop (Suc i) t'). x < length v"
      using inb by (meson in_set_dropD)
    with "1.IH"(2)[OF False step[symmetric] "1.prems"(1)]
    have R: "aquicksort v (drop (Suc i) t') = aquicksort ys (drop (Suc i) t')" by simp
    from False show ?thesis
      by (subst (1 2) aquicksort.simps) (simp add: step step' L R)
  qed
qed

lemma comparison_based_quick: "comparison_based argsort_quick"
  unfolding comparison_based_def argsort_quick_def
proof (intro allI impI)
  fix xs ys :: "real list"
  assume so: "same_order xs ys"
  then have "aquicksort xs [0..<length xs] = aquicksort ys [0..<length xs]"
    by (rule aquicksort_same_order) simp
  with so show "aquicksort xs [0..<length xs] = aquicksort ys [0..<length ys]"
    by (simp add: same_order_def)
qed

subsection \<open>The order of a ranking\<close>

lemma sorted_key_unique:
  assumes "inj_on f (set xs)" and "sorted (map f xs)" and "sorted (map f ys)"
    and "distinct xs" and "distinct ys" and "set xs = set ys"
  shows "xs = ys"
proof -
  have "distinct (map f xs)" "distinct (map f ys)"
    using assms(1,4,5,6) by (simp_all add: distinct_map)
  moreover have "set (map f xs) = set (map f ys)"
    using assms(6) by simp
  ultimately have "map f xs = map f ys"
    using assms(2,3) by (intro sorted_distinct_set_unique)
  moreover have "inj_on f (set xs \<union> set ys)"
    using assms(1,6) by simp
  ultimately show ?thesis
    by (simp add: inj_on_map_eq_map)
qed

lemma sorted_rev_negated:
  "sorted (map (\<lambda>i. - (key i :: real)) (rev p)) \<longleftrightarrow> sorted (map key p)"
  by (simp add: sorted_map sorted_wrt_rev)

lemma rev_argsort_is_spec_order:
  assumes p: "is_argsort row p" and d: "distinct row"
  shows "rev p = sort_key (\<lambda>i. - row ! i) [0..<length row]"
proof (rule sorted_key_unique[where f = "\<lambda>i. - row ! i"])
  have "inj_on (\<lambda>i. row ! i) {0..<length row}"
    using d by (auto simp: inj_on_def nth_eq_iff_index_eq)
  then have "inj_on (\<lambda>i. - row ! i) {0..<length row}"
    by (auto simp: inj_on_def)
  then show "inj_on (\<lambda>i. - row ! i) (set (rev p))"
    by (simp add: is_argsort_set[OF p])
  show "sorted (map (\<lambda>i. - row ! i) (rev p))"
    using p by (simp only: sorted_rev_negated is_argsort_def)
  show "sorted (map (\<lambda>i. - row ! i) (sort_key (\<lambda>i. - row ! i) [0..<length row]))"
    by simp
  show "distinct (rev p)"
    using is_argsort_distinct[OF p] by simp
  show "distinct (sort_key (\<lambda>i. - row ! i) [0..<length row])"
    by simp
  show "set (rev p) = set (sort_key (\<lambda>i. - row ! i) [0..<length row])"
    by (simp add: is_argsort_set[OF p])
qed

lemma ranking_shape:
  assumes p: "is_argsort row p"
  defines "t \<equiv> rev (drop (length p - TOP_K) p)"
  shows "length t = min TOP_K (length row)" and "distinct t" and "set t \<subseteq> {0..<length row}"
    and "sorted (rev (map (\<lambda>i. row ! i) t))"
    and "\<forall>i<length row. i \<notin> set t \<longrightarrow> (\<forall>j\<in>set t. row ! i \<le> row ! j)"
proof -
  let ?n = "length p - TOP_K"
  show "length t = min TOP_K (length row)"
    by (simp add: t_def is_argsort_length[OF p])
  show "distinct t"
    using is_argsort_distinct[OF p] by (simp add: t_def)
  show "set t \<subseteq> {0..<length row}"
    using set_drop_subset[of ?n p] by (simp add: t_def is_argsort_set[OF p])
  have sp: "sorted (map (\<lambda>i. row ! i) p)"
    using p by (simp add: is_argsort_def)
  then have "sorted (drop ?n (map (\<lambda>i. row ! i) p))"
    by (rule sorted_wrt_drop)
  then show "sorted (rev (map (\<lambda>i. row ! i) t))"
    by (simp add: t_def rev_map drop_map)
  show "\<forall>i<length row. i \<notin> set t \<longrightarrow> (\<forall>j\<in>set t. row ! i \<le> row ! j)"
  proof (intro allI impI ballI)
    fix i j assume i: "i < length row" "i \<notin> set t" and j: "j \<in> set t"
    from sp have "sorted (map (\<lambda>i. row ! i) (take ?n p) @ map (\<lambda>i. row ! i) (drop ?n p))"
      by (simp only: map_append[symmetric] append_take_drop_id)
    then have sep: "\<forall>x\<in>set (take ?n p). \<forall>y\<in>set (drop ?n p). row ! x \<le> row ! y"
      by (auto simp: sorted_append)
    have "set p = set (take ?n p) \<union> set (drop ?n p)"
      by (simp only: set_append[symmetric] append_take_drop_id)
    moreover from i(1) have "i \<in> set p"
      by (simp add: is_argsort_set[OF p])
    moreover from i(2) have "i \<notin> set (drop ?n p)" by (simp add: t_def)
    ultimately have "i \<in> set (take ?n p)" by blast
    moreover from j have "j \<in> set (drop ?n p)" by (simp add: t_def)
    ultimately show "row ! i \<le> row ! j" using sep by blast
  qed
qed

subsection \<open>Reordered negatives\<close>

lemma better_count_permuted:
  assumes "negatives_permuted row row'"
  shows "better_count row' = better_count row"
proof -
  have "length (filter (\<lambda>s. hd row < s) (tl row')) = size (filter_mset (\<lambda>s. hd row < s) (mset (tl row')))"
    by (simp only: mset_filter[symmetric] size_mset)
  also have "\<dots> = size (filter_mset (\<lambda>s. hd row < s) (mset (tl row)))"
    using assms by (simp add: negatives_permuted_def)
  also have "\<dots> = length (filter (\<lambda>s. hd row < s) (tl row))"
    by (simp only: mset_filter[symmetric] size_mset)
  finally show ?thesis
    using assms by (simp add: better_count_def negatives_permuted_def)
qed

lemma untied_permuted:
  assumes "negatives_permuted row row'" and "true_item_untied row"
  shows "true_item_untied row'"
proof -
  from assms(1) have "set (tl row') = set (tl row)"
    by (auto simp: negatives_permuted_def dest: mset_eq_setD)
  with assms show ?thesis
    by (simp add: true_item_untied_def negatives_permuted_def)
qed

lemma tops_permuted:
  assumes srt: "argsort_spec srt"
    and "list_all2 negatives_permuted scores scores'"
    and "\<forall>row\<in>set scores. true_item_untied row"
  shows "length (filter row_hit (top_indicies srt scores')) =
           length (filter row_hit (top_indicies srt scores)) \<and>
         (\<Sum>t\<leftarrow>top_indicies srt scores'. row_gain t) = (\<Sum>t\<leftarrow>top_indicies srt scores. row_gain t)"
  using assms(2,3)
proof (induction scores scores' rule: list_all2_induct)
  case Nil
  then show ?case by (simp add: top_indicies_def)
next
  case (Cons row scores row' scores')
  have p: "is_argsort row (srt row)" and p': "is_argsort row' (srt row')"
    using srt by (simp_all add: argsort_spec_def)
  from Cons.prems have u: "true_item_untied row" by simp
  have u': "true_item_untied row'" using Cons.hyps(1) u by (rule untied_permuted)
  have bc: "better_count row' = better_count row" using Cons.hyps(1) by (rule better_count_permuted)
  have hit: "row_hit (rev (drop (length (srt row') - TOP_K) (srt row'))) =
      row_hit (rev (drop (length (srt row) - TOP_K) (srt row)))"
    by (simp only: row_hit_untied[OF p u] row_hit_untied[OF p' u'] bc)
  have gain: "row_gain (rev (drop (length (srt row') - TOP_K) (srt row'))) =
      row_gain (rev (drop (length (srt row) - TOP_K) (srt row)))"
    by (simp only: row_gain_untied[OF p u] row_gain_untied[OF p' u'] bc)
  from Cons.IH Cons.prems
  have ih: "length (filter row_hit (top_indicies srt scores')) =
      length (filter row_hit (top_indicies srt scores))"
    "(\<Sum>t\<leftarrow>top_indicies srt scores'. row_gain t) = (\<Sum>t\<leftarrow>top_indicies srt scores. row_gain t)"
    by simp_all
  have unf: "top_indicies srt (r # rs) = rev (drop (length (srt r) - TOP_K) (srt r)) # top_indicies srt rs"
    for r rs by (simp add: top_indicies_def)
  show ?case
    by (simp only: unf filter.simps list.map sum_list.Cons hit gain ih) (simp add: ih)
qed

subsection \<open>The example inputs evaluated\<close>

lemma well_shaped_two_users: "well_shaped est_two_users ds_two_users"
  by (simp add: well_shaped_def est_two_users_def ds_two_users_def)

lemma scores_two_users:
  "scores_by_user est_two_users ds_two_users =
     [[11, 1, 2, 3, 4, 5, 6, 7, 8, 9, 10], [0, 1, 2, 3, 4, 5, 6, 7, 8, 9, 10]]"
  by code_simp

lemma top_two_users:
  "top_indicies argsort_insertion (scores_by_user est_two_users ds_two_users) =
     [[0, 10, 9, 8, 7, 6, 5, 4, 3, 2], [10, 9, 8, 7, 6, 5, 4, 3, 2, 1]]"
  unfolding scores_two_users by code_simp

lemma well_shaped_narrow: "well_shaped est_narrow ds_two_users"
  by (simp add: well_shaped_def est_narrow_def ds_two_users_def)

lemma row_width_narrow: "row_width est_narrow ds_two_users = 3"
  by (simp add: row_width_def est_narrow_def ds_two_users_def)

lemma top_narrow:
  "top_indicies argsort_insertion (scores_by_user est_narrow ds_two_users) = [[0, 1, 2], [1, 0, 2]]"
  by code_simp

lemma evaluate_narrow:
  "evaluate_model argsort_insertion est_narrow ds_two_users =
     Inr \<lparr>HR = 1, NDCG = (1 + ln 2 / ln 3) / 2, GLOBAL_STEP = 0\<rparr>"
  unfolding evaluate_model_eq_spec [OF argsort_spec_insertion well_shaped_narrow] top_narrow
  by (simp add: spec_hit_ratio_def spec_ndcg_def row_hit_def row_gain_def
      est_narrow_def ds_two_users_def)

lemma well_shaped_true_on_top: "well_shaped est_true_on_top ds_two_users"
  by (simp add: well_shaped_def est_true_on_top_def ds_two_users_def)

lemma scores_true_on_top:
  "scores_by_user est_true_on_top ds_two_users =
     [[11, 1, 2, 3, 4, 5, 6, 7, 8, 9, 10], [5, 4, 4, 3, 3, 2, 2, 1, 1, 0, 0]]"
  by code_simp

lemma well_shaped_scaled: "well_shaped est_scaled ds_two_users"
  by (simp add: well_shaped_def est_scaled_def ds_two_users_def)

lemma scores_narrow:
  "scores_by_user est_narrow ds_two_users = [[9/10, 1/10, 1/20], [1/10, 9/10, 1/20]]"
  by code_simp

lemma scores_scaled:
  "scores_by_user est_scaled ds_two_users = [[27/10, 3/10, 3/20], [1/20, 9/20, 1/40]]"
  by code_simp

lemma well_shaped_two_users_permuted: "well_shaped est_two_users_permuted ds_two_users"
  by (simp add: well_shaped_def est_two_users_permuted_def ds_two_users_def)

lemma scores_two_users_permuted:
  "scores_by_user est_two_users_permuted ds_two_users =
     [[11, 10, 9, 8, 7, 6, 5, 4, 3, 2, 1], [0, 2, 1, 4, 3, 6, 5, 8, 7, 10, 9]]"
  by code_simp

lemma permuted_two_users:
  "list_all2 negatives_permuted (scores_by_user est_two_users ds_two_users)
     (scores_by_user est_two_users_permuted ds_two_users)"
  unfolding scores_two_users scores_two_users_permuted
  by (simp add: negatives_permuted_def)

lemma argsort_quick_short:
  assumes "length row - 1 \<le> SMALL_QUICKSORT"
  shows "argsort_quick row = argsort_insertion row"
proof -
  from assms have "length [0..<length row] - 1 \<le> SMALL_QUICKSORT" by simp
  then have "aquicksort row [0..<length row] = sort_key (\<lambda>i. row ! i) [0..<length row]"
    by (subst aquicksort.simps) (simp only: if_True)
  then show ?thesis
    by (simp only: argsort_quick_def argsort_insertion_def)
qed

lemma well_shaped_ties: "well_shaped est_ties_a ds_one_user" "well_shaped est_ties_b ds_one_user"
  by (simp_all add: well_shaped_def est_ties_a_def est_ties_b_def ds_one_user_def)

lemma scores_ties:
  "scores_by_user est_ties_a ds_one_user = [row_ties_a]"
  "scores_by_user est_ties_b ds_one_user = [row_ties_b]"
  by code_simp+

lemma argsort_quick_ties_a:
  "argsort_quick row_ties_a = [17, 15, 14, 13, 12, 11, 10, 9, 0, 7, 6, 5, 4, 3, 2, 1, 16, 8]"
  by code_simp

lemma argsort_quick_ties_b:
  "argsort_quick row_ties_b = [1, 0, 15, 14, 13, 12, 11, 10, 9, 8, 7, 6, 5, 4, 3, 2, 16, 17]"
  by code_simp

lemma top_ties:
  "top_indicies argsort_quick [row_ties_a] = [[8, 16, 1, 2, 3, 4, 5, 6, 7, 0]]"
  "top_indicies argsort_quick [row_ties_b] = [[17, 16, 2, 3, 4, 5, 6, 7, 8, 9]]"
  by (simp_all add: top_indicies_def argsort_quick_ties_a argsort_quick_ties_b TOP_K_def)

lemma hits_ties:
  "hit_indicies [[8, 16, 1, 2, 3, 4, 5, 6, 7, 0]] = [(0, 9)]"
  "hit_indicies [[17, 16, 2, 3, 4, 5, 6, 7, 8, 9]] = []"
  by code_simp+

section \<open>The claims\<close>

text \<open>
  C1. On every well-shaped input, whatever sorting routine \<open>argsort\<close> is, the call
  returns a result whose Hit Ratio is the number of rows whose top-K ranking contains
  column index 0, divided by \<open>num_users\<close>, and whose NDCG is the sum over the rows of
  \<open>log 2 / log (r + 2)\<close> for a row with column 0 at rank \<open>r\<close> of its ranking and 0 for a
  row without a hit, divided by \<open>num_users\<close>.
\<close>

theorem evaluate_model_metrics:
  assumes "argsort_spec srt" and "well_shaped est ds"
  shows "evaluate_model srt est ds =
     Inr \<lparr>HR = spec_hit_ratio (top_indicies srt (scores_by_user est ds)) (num_users ds),
          NDCG = spec_ndcg (top_indicies srt (scores_by_user est ds)) (num_users ds),
          GLOBAL_STEP = global_step est\<rparr>"
  using assms by (rule evaluate_model_eq_spec)

text \<open>
  On the two-user example the first row hits at rank 0 and the second row misses: both
  metrics are one half.
\<close>

theorem evaluate_model_metrics_witness:
  "evaluate_model argsort_insertion est_two_users ds_two_users =
     Inr \<lparr>HR = 1 / 2, NDCG = 1 / 2, GLOBAL_STEP = 7\<rparr>"
  using evaluate_model_metrics [OF argsort_spec_insertion well_shaped_two_users]
  unfolding top_two_users
  by (simp add: spec_hit_ratio_def spec_ndcg_def row_hit_def row_gain_def
      est_two_users_def ds_two_users_def)

text \<open>
  C2 as stated fails on ties. With the insertion sort as \<open>argsort\<close>, equal scores leave
  the sort by ascending index and the flip reverses them: on the row of \<open>est_tied\<close>
  column 1 is ranked before column 0, where the specification's order has column 0
  first.
\<close>

theorem tie_order_counterexample:
  "top_indicies argsort_insertion (scores_by_user est_tied ds_one_user) =
     [[1, 0, 10, 9, 8, 7, 6, 5, 4, 3]] \<and>
   map (spec_ranking TOP_K) (scores_by_user est_tied ds_one_user) =
     [[0, 1, 2, 3, 4, 5, 6, 7, 8, 9]] \<and>
   top_indicies argsort_insertion (scores_by_user est_tied ds_one_user) \<noteq>
     map (spec_ranking TOP_K) (scores_by_user est_tied ds_one_user)"
proof -
  have "top_indicies argsort_insertion (scores_by_user est_tied ds_one_user) =
      [[1, 0, 10, 9, 8, 7, 6, 5, 4, 3]]"
    by code_simp
  moreover have "map (spec_ranking TOP_K) (scores_by_user est_tied ds_one_user) =
      [[0, 1, 2, 3, 4, 5, 6, 7, 8, 9]]"
    by code_simp
  ultimately show ?thesis by simp
qed

text \<open>
  C2, amended. Whatever the sorting routine, the ranking of a row holds
  \<open>min(_TOP_K, W)\<close> distinct column indices of the row, in an order of non-increasing
  score, and no column left out scores above a column of the ranking. When the scores
  of the row are pairwise distinct it is the specification's ranking. Among equal
  scores the order is the reverse of the one \<open>argsort\<close> returns, which the source does
  not fix.
\<close>

theorem ranking_descending:
  assumes "argsort_spec srt" and "u < length scores"
  shows "length (top_indicies srt scores ! u) = min TOP_K (length (scores ! u)) \<and>
     distinct (top_indicies srt scores ! u) \<and>
     set (top_indicies srt scores ! u) \<subseteq> {0..<length (scores ! u)} \<and>
     sorted (rev (map (\<lambda>i. scores ! u ! i) (top_indicies srt scores ! u))) \<and>
     (\<forall>i<length (scores ! u). i \<notin> set (top_indicies srt scores ! u) \<longrightarrow>
        (\<forall>j\<in>set (top_indicies srt scores ! u). scores ! u ! i \<le> scores ! u ! j)) \<and>
     (distinct (scores ! u) \<longrightarrow> top_indicies srt scores ! u = spec_ranking TOP_K (scores ! u))"
proof -
  let ?row = "scores ! u"
  have p: "is_argsort ?row (srt ?row)"
    using assms(1) by (simp add: argsort_spec_def)
  have t: "top_indicies srt scores ! u = rev (drop (length (srt ?row) - TOP_K) (srt ?row))"
    using assms(2) by (simp add: top_indicies_def)
  have "distinct ?row \<longrightarrow> rev (drop (length (srt ?row) - TOP_K) (srt ?row)) = spec_ranking TOP_K ?row"
    by (simp add: rev_drop_take spec_ranking_def rev_argsort_is_spec_order[OF p])
  then show ?thesis
    unfolding t using ranking_shape[OF p] by blast
qed

theorem ranking_descending_witness:
  "top_indicies argsort_insertion (scores_by_user est_two_users ds_two_users) ! 0 =
     spec_ranking TOP_K [11, 1, 2, 3, 4, 5, 6, 7, 8, 9, 10] \<and>
   length (top_indicies argsort_insertion (scores_by_user est_two_users ds_two_users) ! 0) = 10"
proof -
  have u: "0 < length (scores_by_user est_two_users ds_two_users)"
    by (simp add: scores_two_users)
  have d: "distinct (scores_by_user est_two_users ds_two_users ! 0)"
    by (simp add: scores_two_users)
  have r: "scores_by_user est_two_users ds_two_users ! 0 = [11, 1, 2, 3, 4, 5, 6, 7, 8, 9, 10]"
    by (simp add: scores_two_users)
  from ranking_descending [OF argsort_spec_insertion u] d
  have "top_indicies argsort_insertion (scores_by_user est_two_users ds_two_users) ! 0 =
      spec_ranking TOP_K (scores_by_user est_two_users ds_two_users ! 0)"
    and "length (top_indicies argsort_insertion (scores_by_user est_two_users ds_two_users) ! 0) =
      min TOP_K (length (scores_by_user est_two_users ds_two_users ! 0))"
    by blast+
  then show ?thesis
    by (simp add: r TOP_K_def)
qed

text \<open>
  C3 as stated fails: rows narrower than \<open>_TOP_K\<close> raise nothing. On two rows of three
  columns the call returns a result.
\<close>

theorem narrow_rows_return_counterexample:
  "row_width est_narrow ds_two_users < TOP_K \<and>
   evaluate_model argsort_insertion est_narrow ds_two_users =
     Inr \<lparr>HR = 1, NDCG = (1 + ln 2 / ln 3) / 2, GLOBAL_STEP = 0\<rparr>"
  by (simp add: row_width_narrow TOP_K_def evaluate_narrow)

text \<open>
  C3, amended. The only guards are those of \<open>np.concatenate\<close> and \<open>reshape\<close>: a
  non-positive \<open>num_users\<close> raises a \<open>ValueError\<close> there, before anything is ranked
  or counted. \<open>_TOP_K\<close> is the constant 10 and is never checked against the row width:
  on well-shaped input with rows narrower than \<open>_TOP_K\<close> the call returns a result, and
  every ranking holds all the columns of its row.
\<close>

theorem reshape_guards_only:
  "(num_users ds \<le> 0 \<longrightarrow>
      evaluate_model srt est ds =
        Inl (if predictions est = [] then ConcatenateEmpty
             else if num_users ds < 0 then ReshapeUnknownDims else ReshapeSizeMismatch)) \<and>
   (argsort_spec srt \<and> well_shaped est ds \<and> row_width est ds < TOP_K \<longrightarrow>
      (\<exists>res. evaluate_model srt est ds = Inr res) \<and>
      (\<forall>t\<in>set (top_indicies srt (scores_by_user est ds)). length t = row_width est ds))"
proof (intro conjI impI)
  assume "num_users ds \<le> 0"
  then show "evaluate_model srt est ds =
        Inl (if predictions est = [] then ConcatenateEmpty
             else if num_users ds < 0 then ReshapeUnknownDims else ReshapeSizeMismatch)"
    by (simp add: evaluate_model_def concatenate_def reshape_def)
next
  assume h: "argsort_spec srt \<and> well_shaped est ds \<and> row_width est ds < TOP_K"
  then show "\<exists>res. evaluate_model srt est ds = Inr res"
    by (simp add: evaluate_model_well_shaped)
  show "\<forall>t\<in>set (top_indicies srt (scores_by_user est ds)). length t = row_width est ds"
  proof
    fix t assume "t \<in> set (top_indicies srt (scores_by_user est ds))"
    then obtain row where row: "row \<in> set (scores_by_user est ds)"
      and t: "t = rev (drop (length (srt row) - TOP_K) (srt row))"
      by (auto simp: top_indicies_def)
    have w: "length row = row_width est ds"
      using h row by (simp add: width_scores_by_user)
    have "is_argsort row (srt row)"
      using h by (simp add: argsort_spec_def)
    then have "length (srt row) = row_width est ds"
      using w by (simp add: is_argsort_length)
    with h show "length t = row_width est ds"
      by (simp add: t)
  qed
qed

theorem reshape_guards_only_witness:
  "evaluate_model argsort_insertion est_narrow ds_no_users = Inl ReshapeSizeMismatch \<and>
   (\<exists>res. evaluate_model argsort_insertion est_narrow ds_two_users = Inr res) \<and>
   map length (top_indicies argsort_insertion (scores_by_user est_narrow ds_two_users)) = [3, 3]"
proof -
  have a: "num_users ds_no_users \<le> 0" by (simp add: ds_no_users_def)
  have b: "argsort_spec argsort_insertion \<and> well_shaped est_narrow ds_two_users \<and>
      row_width est_narrow ds_two_users < TOP_K"
    by (simp add: argsort_spec_insertion well_shaped_narrow row_width_narrow TOP_K_def)
  from a reshape_guards_only [of ds_no_users argsort_insertion est_narrow]
  have "evaluate_model argsort_insertion est_narrow ds_no_users = Inl ReshapeSizeMismatch"
    by (simp add: est_narrow_def ds_no_users_def)
  moreover from b reshape_guards_only [of ds_two_users argsort_insertion est_narrow]
  have "(\<exists>res. evaluate_model argsort_insertion est_narrow ds_two_users = Inr res) \<and>
    (\<forall>t\<in>set (top_indicies argsort_insertion (scores_by_user est_narrow ds_two_users)).
      length t = 3)"
    by (simp add: row_width_narrow)
  ultimately show ?thesis by (simp add: top_narrow)
qed

text \<open>
  C4. When \<open>num_users\<close> does not divide the number of scores, the call raises the
  \<open>ValueError\<close> of \<open>reshape\<close> and returns no result.
\<close>

theorem indivisible_length_raises:
  assumes "\<not> num_users ds dvd int (length (concat (predictions est)))"
  shows "evaluate_model srt est ds =
           Inl (if num_users ds < 0 then ReshapeUnknownDims else ReshapeSizeMismatch)"
proof -
  from assms have "predictions est \<noteq> []" by auto
  moreover from assms have "int (length (concat (predictions est))) mod num_users ds \<noteq> 0"
    by (simp add: dvd_eq_mod_eq_0)
  ultimately show ?thesis
    by (simp add: evaluate_model_def concatenate_def reshape_def)
qed

theorem indivisible_length_raises_witness:
  "\<not> num_users ds_two_users dvd int (length (concat (predictions est_odd))) \<and>
   evaluate_model argsort_insertion est_odd ds_two_users = Inl ReshapeSizeMismatch"
proof -
  have h: "\<not> num_users ds_two_users dvd int (length (concat (predictions est_odd)))"
    by (simp add: ds_two_users_def est_odd_def)
  show ?thesis
    using h indivisible_length_raises[OF h, of argsort_insertion]
    by (simp add: ds_two_users_def)
qed

text \<open>
  C5. On every well-shaped input the call returns a result whose Hit Ratio and whose
  NDCG both lie between 0 and 1.
\<close>

theorem metrics_in_unit_interval:
  assumes "argsort_spec srt" and "well_shaped est ds"
  shows "\<exists>res. evaluate_model srt est ds = Inr res \<and>
           0 \<le> HR res \<and> HR res \<le> 1 \<and> 0 \<le> NDCG res \<and> NDCG res \<le> 1"
proof -
  let ?tops = "top_indicies srt (scores_by_user est ds)"
  from assms(2) have n: "0 < num_users ds" by (simp add: well_shaped_def)
  have len: "length ?tops = nat (num_users ds)"
    by (simp add: length_top_indicies length_scores_by_user)
  have hr1: "spec_hit_ratio ?tops (num_users ds) \<le> 1"
    using n len by (rule spec_hit_ratio_le_1)
  have "spec_ndcg ?tops (num_users ds) \<le> spec_hit_ratio ?tops (num_users ds)"
    using n by (rule spec_ndcg_le_hit_ratio)
  with hr1 have nd1: "spec_ndcg ?tops (num_users ds) \<le> 1" by simp
  show ?thesis
    using evaluate_model_eq_spec[OF assms] hr1 nd1 spec_hit_ratio_nonneg[OF n] spec_ndcg_nonneg[OF n]
    by simp
qed

theorem metrics_in_unit_interval_witness:
  "\<exists>res. evaluate_model argsort_insertion est_two_users ds_two_users = Inr res \<and>
           0 \<le> HR res \<and> HR res \<le> 1 \<and> 0 \<le> NDCG res \<and> NDCG res \<le> 1"
  by (rule metrics_in_unit_interval [OF argsort_spec_insertion well_shaped_two_users])

text \<open>
  C6. Multiplying every score of a row by one positive constant (each row by its own)
  leaves every row of \<open>top_indicies\<close> as it was, hence each row's contribution to the
  Hit Ratio and to the NDCG, and both returned metrics. The sorting routine is taken to
  decide by comparing scores only, as every kind of \<open>np.argsort\<close> does.
\<close>

theorem positive_scaling_invariant:
  assumes "comparison_based srt" and "well_shaped est ds" and "well_shaped est' ds"
    and "length cs = nat (num_users ds)" and "\<forall>c\<in>set cs. 0 < c"
    and "scores_by_user est' ds = scale_rows cs (scores_by_user est ds)"
  shows "top_indicies srt (scores_by_user est' ds) = top_indicies srt (scores_by_user est ds) \<and>
    (\<exists>res res'. evaluate_model srt est ds = Inr res \<and> evaluate_model srt est' ds = Inr res' \<and>
       HR res' = HR res \<and> NDCG res' = NDCG res)"
proof -
  have "length cs = length (scores_by_user est ds)"
    using assms(4) by (simp add: length_scores_by_user)
  with assms(1) have tops: "top_indicies srt (scale_rows cs (scores_by_user est ds)) =
      top_indicies srt (scores_by_user est ds)"
    using assms(5) by (rule top_indicies_scale_rows)
  then show ?thesis
    by (simp add: evaluate_model_well_shaped[OF assms(2)] evaluate_model_well_shaped[OF assms(3)]
        assms(6))
qed

theorem positive_scaling_invariant_witness:
  "top_indicies argsort_insertion (scores_by_user est_scaled ds_two_users) =
     top_indicies argsort_insertion (scores_by_user est_narrow ds_two_users) \<and>
   (\<exists>res res'. evaluate_model argsort_insertion est_narrow ds_two_users = Inr res \<and>
      evaluate_model argsort_insertion est_scaled ds_two_users = Inr res' \<and>
      HR res' = HR res \<and> NDCG res' = NDCG res)"
proof (rule positive_scaling_invariant [OF comparison_based_insertion well_shaped_narrow
      well_shaped_scaled, of "[3, 1/2]"])
  show "length [3, 1/2 :: real] = nat (num_users ds_two_users)"
    by (simp add: ds_two_users_def)
  show "\<forall>c\<in>set [3, 1/2 :: real]. 0 < c" by simp
  show "scores_by_user est_scaled ds_two_users =
      scale_rows [3, 1/2] (scores_by_user est_narrow ds_two_users)"
    by (simp add: scores_narrow scores_scaled scale_rows_def)
qed

text \<open>
  C7 as stated fails when negatives tie with the true item: where column 0 lands among
  equal scores is up to the sorting routine. With the quicksort, which meets the
  contract of \<open>argsort\<close> (\<open>argsort_spec_quick\<close>), moving the one lower negative of
  \<open>row_ties_a\<close> from the last column to column 1 takes column 0 out of the top ten:
  the Hit Ratio falls from 1 to 0.
\<close>

theorem negatives_order_counterexample:
  "is_argsort row_ties_a (argsort_quick row_ties_a) \<and>
   is_argsort row_ties_b (argsort_quick row_ties_b) \<and>
   negatives_permuted row_ties_a row_ties_b \<and>
   evaluate_model argsort_quick est_ties_a ds_one_user =
     Inr \<lparr>HR = 1, NDCG = ln 2 / ln 11, GLOBAL_STEP = 0\<rparr> \<and>
   evaluate_model argsort_quick est_ties_b ds_one_user =
     Inr \<lparr>HR = 0, NDCG = 0, GLOBAL_STEP = 0\<rparr>"
proof -
  have "is_argsort row_ties_a (argsort_quick row_ties_a)"
    and "is_argsort row_ties_b (argsort_quick row_ties_b)"
    by code_simp+
  moreover have "negatives_permuted row_ties_a row_ties_b"
    by (simp add: negatives_permuted_def row_ties_a_def row_ties_b_def)
  moreover have "evaluate_model argsort_quick est_ties_a ds_one_user =
     Inr \<lparr>HR = 1, NDCG = ln 2 / ln 11, GLOBAL_STEP = 0\<rparr>"
    unfolding evaluate_model_well_shaped[OF well_shaped_ties(1)] scores_ties top_ties hits_ties
    by (simp add: est_ties_a_def ds_one_user_def)
  moreover have "evaluate_model argsort_quick est_ties_b ds_one_user =
     Inr \<lparr>HR = 0, NDCG = 0, GLOBAL_STEP = 0\<rparr>"
    unfolding evaluate_model_well_shaped[OF well_shaped_ties(2)] scores_ties top_ties hits_ties
    by (simp add: est_ties_b_def ds_one_user_def)
  ultimately show ?thesis by simp
qed

text \<open>
  C7, amended. When in every row no negative has the score of the true item,
  reordering the negatives of the rows leaves the Hit Ratio and the NDCG unchanged,
  whatever the sorting routine.
\<close>

theorem negatives_order_irrelevant:
  assumes "argsort_spec srt" and "well_shaped est ds" and "well_shaped est' ds"
    and "list_all2 negatives_permuted (scores_by_user est ds) (scores_by_user est' ds)"
    and "\<forall>row\<in>set (scores_by_user est ds). true_item_untied row"
  shows "\<exists>res res'. evaluate_model srt est ds = Inr res \<and> evaluate_model srt est' ds = Inr res' \<and>
           HR res' = HR res \<and> NDCG res' = NDCG res"
  using tops_permuted[OF assms(1,4,5)]
  by (simp add: evaluate_model_eq_spec[OF assms(1,2)] evaluate_model_eq_spec[OF assms(1,3)]
      spec_hit_ratio_def spec_ndcg_def)

theorem negatives_order_irrelevant_witness:
  "\<exists>res res'. evaluate_model argsort_insertion est_two_users ds_two_users = Inr res \<and>
      evaluate_model argsort_insertion est_two_users_permuted ds_two_users = Inr res' \<and>
      HR res' = HR res \<and> NDCG res' = NDCG res"
  by (rule negatives_order_irrelevant [OF argsort_spec_insertion well_shaped_two_users
        well_shaped_two_users_permuted permuted_two_users])
     (simp add: scores_two_users true_item_untied_def)

text \<open>
  C8. When column 0 has the strictly highest score of its row in every row, the call
  returns Hit Ratio 1 and NDCG 1.
\<close>

theorem true_item_on_top:
  assumes "argsort_spec srt" and "well_shaped est ds"
    and "\<forall>row\<in>set (scores_by_user est ds). true_item_highest row"
  shows "\<exists>res. evaluate_model srt est ds = Inr res \<and> HR res = 1 \<and> NDCG res = 1"
proof -
  let ?tops = "top_indicies srt (scores_by_user est ds)"
  from assms(2) have n: "0 < num_users ds" by (simp add: well_shaped_def)
  have each: "row_hit t \<and> row_gain t = 1" if "t \<in> set ?tops" for t
  proof -
    from that obtain row where row: "row \<in> set (scores_by_user est ds)"
      and t: "t = rev (drop (length (srt row) - TOP_K) (srt row))"
      by (auto simp: top_indicies_def)
    have p: "is_argsort row (srt row)" using assms(1) by (simp add: argsort_spec_def)
    from assms(3) row have h: "true_item_highest row" by blast
    have u: "true_item_untied row" using h by (rule highest_untied)
    have "better_count row < TOP_K"
      by (simp add: highest_better_count[OF h] TOP_K_def)
    then show ?thesis
      unfolding t
      by (simp add: row_hit_untied[OF p u] row_gain_untied[OF p u] highest_better_count[OF h])
  qed
  have len: "length ?tops = nat (num_users ds)"
    by (simp add: length_top_indicies length_scores_by_user)
  from each have "filter row_hit ?tops = ?tops" by (intro filter_all) blast
  then have hr: "spec_hit_ratio ?tops (num_users ds) = 1"
    using n by (simp add: spec_hit_ratio_def len)
  from each have "(\<Sum>t\<leftarrow>?tops. row_gain t) = real (length ?tops)"
    by (intro sum_list_all_ones) blast
  then have nd: "spec_ndcg ?tops (num_users ds) = 1"
    using n by (simp add: spec_ndcg_def len)
  show ?thesis
    using evaluate_model_eq_spec[OF assms(1,2)] hr nd by simp
qed

theorem true_item_on_top_witness:
  "\<exists>res. evaluate_model argsort_insertion est_true_on_top ds_two_users = Inr res \<and>
      HR res = 1 \<and> NDCG res = 1"
  by (rule true_item_on_top [OF argsort_spec_insertion well_shaped_true_on_top])
     (simp add: scores_true_on_top true_item_highest_def)

text \<open>
  C9. A score matrix has the true item's column, so its rows have at least one entry.
  When they have at most \<open>_TOP_K = 10\<close> entries, the slice keeps every column index of
  every row, column index 0 among them: the call raises no error and returns Hit
  Ratio 1, whatever the scores are.
\<close>

theorem narrow_rows_always_hit:
  assumes "argsort_spec srt" and "well_shaped est ds"
    and "1 \<le> row_width est ds" and "row_width est ds \<le> TOP_K"
  shows "\<exists>res. evaluate_model srt est ds = Inr res \<and> HR res = 1"
proof -
  let ?tops = "top_indicies srt (scores_by_user est ds)"
  from assms(2) have n: "0 < num_users ds" by (simp add: well_shaped_def)
  have "\<forall>t\<in>set ?tops. row_hit t"
  proof
    fix t assume "t \<in> set ?tops"
    then obtain row where row: "row \<in> set (scores_by_user est ds)"
      and t: "t = rev (drop (length (srt row) - TOP_K) (srt row))"
      by (auto simp: top_indicies_def)
    have w: "length row = row_width est ds"
      using assms(2) row by (rule width_scores_by_user)
    have "is_argsort row (srt row)"
      using assms(1) by (simp add: argsort_spec_def)
    moreover have "row \<noteq> []" using w assms(3) by auto
    moreover have "length row \<le> TOP_K" using w assms(4) by simp
    ultimately show "row_hit t" unfolding t by (rule full_ranking_hit)
  qed
  then have "filter row_hit ?tops = ?tops" by (rule filter_all)
  then have "spec_hit_ratio ?tops (num_users ds) = 1"
    using n by (simp add: spec_hit_ratio_def length_top_indicies length_scores_by_user)
  then show ?thesis
    using evaluate_model_eq_spec[OF assms(1,2)] by simp
qed

theorem narrow_rows_always_hit_witness:
  "\<exists>res. evaluate_model argsort_insertion est_narrow ds_two_users = Inr res \<and> HR res = 1"
  by (rule narrow_rows_always_hit [OF argsort_spec_insertion well_shaped_narrow])
     (simp_all add: row_width_narrow TOP_K_def)

text \<open>
  C10. On every well-shaped input the NDCG of the result is at most its Hit Ratio:
  column 0 occurs at most once in a ranking, and a hit adds at most 1 to the NDCG sum
  where it adds exactly 1 to the hit count.
\<close>

theorem ndcg_le_hit_ratio:
  assumes "argsort_spec srt" and "well_shaped est ds"
  shows "\<exists>res. evaluate_model srt est ds = Inr res \<and> NDCG res \<le> HR res"
proof -
  from assms(2) have n: "0 < num_users ds" by (simp add: well_shaped_def)
  show ?thesis
    using evaluate_model_eq_spec[OF assms] spec_ndcg_le_hit_ratio[OF n]
    by simp
qed

theorem ndcg_le_hit_ratio_witness:
  "\<exists>res. evaluate_model argsort_insertion est_two_users ds_two_users = Inr res \<and>
           NDCG res \<le> HR res"
  by (rule ndcg_le_hit_ratio [OF argsort_spec_insertion well_shaped_two_users])

end
